theory Spec2Isabelle
  imports Main "HOL-Library.Sublist" "HOL-Library.Multiset"
begin

section \<open>Data model (src/types.ts)\<close>

text \<open>
  JavaScript strings are modelled as \<^typ>\<open>string\<close>, one \<^typ>\<open>char\<close> per code unit, which
  covers the code units below 256 (Latin-1). An optional field (\<^verbatim>\<open>beforeImage?\<close>,
  \<^verbatim>\<open>model?\<close>, \<^verbatim>\<open>isFavorite?\<close>) is an \<^typ>\<open>'a option\<close>, \<^const>\<open>None\<close> standing for
  \<^verbatim>\<open>undefined\<close>.
\<close>

record PromptParameter =
  paramId :: string
  key :: string
  pvalue :: string

record PromptEntry =
  entryId :: string
  beforeImage :: "string option"
  afterImage :: "string option"
  prompt :: string
  model :: "string option"
  parameters :: "PromptParameter list"
  tags :: "string list"
  createdAt :: string
  isFavorite :: "bool option"

section \<open>JavaScript primitives used by the code\<close>

text \<open>Truthiness of a string, of an optional string and of an optional boolean.\<close>

definition truthy_str :: "string \<Rightarrow> bool" where
  "truthy_str s = (s \<noteq> [])"

fun truthy_opt :: "string option \<Rightarrow> bool" where
  "truthy_opt None = False"
| "truthy_opt (Some s) = truthy_str s"

fun truthy_bool :: "bool option \<Rightarrow> bool" where
  "truthy_bool None = False"
| "truthy_bool (Some b) = b"

text \<open>\<^verbatim>\<open>Array.prototype.findIndex\<close>: the first index whose element satisfies the
  predicate, \<open>-1\<close> when there is none.\<close>

fun findIndex :: "('a \<Rightarrow> bool) \<Rightarrow> 'a list \<Rightarrow> int" where
  "findIndex P [] = - 1"
| "findIndex P (x # xs) =
     (if P x then 0
      else (let i = findIndex P xs in if i = - 1 then - 1 else i + 1))"

text \<open>\<^verbatim>\<open>Array.prototype.slice(start, end)\<close> on integer arguments: a negative index
  counts from the end, both indices are clamped into \<open>[0, length]\<close>.\<close>

definition js_slice :: "'a list \<Rightarrow> int \<Rightarrow> int \<Rightarrow> 'a list" where
  "js_slice xs start fin =
     (let len = int (length xs);
          k = (if start < 0 then max (len + start) 0 else min start len);
          final = (if fin < 0 then max (len + fin) 0 else min fin len)
      in take (nat (final - k)) (drop (nat k) xs))"

section \<open>The application component (App): store update and pagination\<close>

definition ITEMS_PER_PAGE :: nat where
  "ITEMS_PER_PAGE = 12"

text \<open>\<^verbatim>\<open>handleSavePrompt\<close>: the updater passed to \<^verbatim>\<open>setPrompts\<close>, as a function of the
  previous store.\<close>

definition handleSavePrompt :: "PromptEntry \<Rightarrow> PromptEntry list \<Rightarrow> PromptEntry list" where
  "handleSavePrompt entry prev =
     (let existingIndex = findIndex (\<lambda>p. entryId p = entryId entry) prev
      in if existingIndex > - 1 then prev[nat existingIndex := entry]
         else entry # prev)"

text \<open>\<^verbatim>\<open>Math.ceil(filteredPrompts.length / ITEMS_PER_PAGE)\<close>, computed on integers.\<close>

definition totalPages :: "'a list \<Rightarrow> int" where
  "totalPages filteredPrompts = - ((- int (length filteredPrompts)) div int ITEMS_PER_PAGE)"

text \<open>\<^verbatim>\<open>paginatedPrompts\<close>. The slice does not look at the elements, so the list is kept
  polymorphic.\<close>

definition paginatedPrompts :: "'a list \<Rightarrow> int \<Rightarrow> 'a list" where
  "paginatedPrompts filteredPrompts currentPage =
     (let startIndex = (currentPage - 1) * int ITEMS_PER_PAGE
      in js_slice filteredPrompts startIndex (startIndex + int ITEMS_PER_PAGE))"

text \<open>The page-clamp effect: the value of \<^verbatim>\<open>currentPage\<close> after the effect has run
  (unchanged when neither branch calls \<^verbatim>\<open>setCurrentPage\<close>).\<close>

definition pageClampEffect :: "int \<Rightarrow> int \<Rightarrow> int" where
  "pageClampEffect currentPage totalPgs =
     (if currentPage > totalPgs \<and> totalPgs > 0 then totalPgs
      else if currentPage = 0 \<and> totalPgs > 0 then 1
      else currentPage)"

section \<open>String primitives\<close>

text \<open>\<^verbatim>\<open>String.prototype.trim\<close> removes white space and line terminators at both ends;
  below 256 these are the code units 9 to 13, 32 and 160.\<close>

definition is_ws :: "char \<Rightarrow> bool" where
  "is_ws c = (of_char c \<in> {9, 10, 11, 12, 13, 32, 160 :: nat})"

definition js_trim :: "string \<Rightarrow> string" where
  "js_trim s = rev (dropWhile is_ws (rev (dropWhile is_ws s)))"

text \<open>\<^verbatim>\<open>String.prototype.toLowerCase\<close> on code units below 256: the letters A to Z and
  the capital letters 192 to 222 (without the multiplication sign 215) move up by 32.\<close>

definition toLowerCase_char :: "char \<Rightarrow> char" where
  "toLowerCase_char c =
     (let n = (of_char c :: nat)
      in if (65 \<le> n \<and> n \<le> 90) \<or> (192 \<le> n \<and> n \<le> 222 \<and> n \<noteq> 215)
         then char_of (n + 32) else c)"

definition toLowerCase :: "string \<Rightarrow> string" where
  "toLowerCase s = map toLowerCase_char s"

text \<open>\<^verbatim>\<open>String.prototype.includes\<close>: the argument occurs as a contiguous run.\<close>

definition js_includes :: "string \<Rightarrow> string \<Rightarrow> bool" where
  "js_includes s needle = sublist needle s"

text \<open>\<^verbatim>\<open>String.prototype.split\<close> with a one-character separator: never the empty
  array; the empty string splits into one empty piece.\<close>

fun js_split :: "char \<Rightarrow> string \<Rightarrow> string list" where
  "js_split sep [] = [[]]"
| "js_split sep (c # cs) =
     (if c = sep then [] # js_split sep cs
      else (case js_split sep cs of
              [] \<Rightarrow> [[c]]
            | w # ws \<Rightarrow> (c # w) # ws))"

text \<open>\<^verbatim>\<open>Array.prototype.join\<close> on an array of strings.\<close>

fun js_join :: "string \<Rightarrow> string list \<Rightarrow> string" where
  "js_join sep [] = []"
| "js_join sep [x] = x"
| "js_join sep (x # y # ys) = x @ sep @ js_join sep (y # ys)"

section \<open>The filtered view (App, \<^verbatim>\<open>filteredPrompts\<close>)\<close>

datatype View = ViewAll | ViewFavorites | ViewReport

text \<open>The predicate passed to \<^verbatim>\<open>filter\<close>.\<close>

definition matchesFilter :: "string \<Rightarrow> string set \<Rightarrow> View \<Rightarrow> PromptEntry \<Rightarrow> bool" where
  "matchesFilter searchTerm selectedTags currentView p =
     (if currentView = ViewFavorites \<and> \<not> truthy_bool (isFavorite p) then False
      else
        (let searchLower = toLowerCase searchTerm;
             matchesSearch =
               (js_includes (toLowerCase (prompt p)) searchLower
                \<or> (case model p of
                      None \<Rightarrow> False
                    | Some m \<Rightarrow> truthy_str m \<and> js_includes (toLowerCase m) searchLower)
                \<or> (\<exists>t\<in>set (tags p). js_includes (toLowerCase t) searchLower));
             matchesTags = (selectedTags = {} \<or> (\<exists>t\<in>set (tags p). t \<in> selectedTags))
         in matchesSearch \<and> matchesTags))"

text \<open>
  The comparator \<^verbatim>\<open>new Date(b.createdAt).getTime() - new Date(a.createdAt).getTime()\<close>.
  The parameter \<open>getTime\<close> is \<^verbatim>\<open>new Date(s).getTime()\<close>, \<^const>\<open>None\<close> for \<^verbatim>\<open>NaN\<close>
  (an unparsable date); a difference with \<^verbatim>\<open>NaN\<close> is \<^verbatim>\<open>NaN\<close>, which \<^verbatim>\<open>sort\<close> reads
  as \<open>0\<close>.
\<close>

definition compareCreatedAt :: "(string \<Rightarrow> int option) \<Rightarrow> PromptEntry \<Rightarrow> PromptEntry \<Rightarrow> int" where
  "compareCreatedAt getTime a b =
     (case (getTime (createdAt b), getTime (createdAt a)) of
        (Some tb, Some ta) \<Rightarrow> tb - ta
      | _ \<Rightarrow> 0)"

text \<open>
  \<^verbatim>\<open>Array.prototype.sort\<close> with a consistent comparator is a stable sort: an element
  moves behind another one only when the comparator is positive. It is modelled by a
  stable insertion sort, which is the engine's result for every consistent comparator;
  the comparator above is consistent when every date parses. For an inconsistent
  comparator (a date that does not parse among dates that differ) ECMAScript leaves the
  order to the engine: the model then still returns the same elements, in an order that
  the engine need not produce, and no theorem below speaks about that order.
\<close>

fun js_sort_insert :: "('a \<Rightarrow> 'a \<Rightarrow> int) \<Rightarrow> 'a \<Rightarrow> 'a list \<Rightarrow> 'a list" where
  "js_sort_insert cmp x [] = [x]"
| "js_sort_insert cmp x (y # ys) =
     (if cmp x y \<le> 0 then x # y # ys else y # js_sort_insert cmp x ys)"

fun js_sort :: "('a \<Rightarrow> 'a \<Rightarrow> int) \<Rightarrow> 'a list \<Rightarrow> 'a list" where
  "js_sort cmp [] = []"
| "js_sort cmp (x # xs) = js_sort_insert cmp x (js_sort cmp xs)"

definition filteredPrompts ::
  "(string \<Rightarrow> int option) \<Rightarrow> PromptEntry list \<Rightarrow> string \<Rightarrow> string set \<Rightarrow> View \<Rightarrow> PromptEntry list" where
  "filteredPrompts getTime prompts searchTerm selectedTags currentView =
     js_sort (compareCreatedAt getTime)
       (filter (matchesFilter searchTerm selectedTags currentView) prompts)"

text \<open>
  The filter as the specification words it: the view restriction, the case-insensitive
  text match and the tag match with OR semantics. Case-insensitivity is stated on the
  letters themselves, without the conversion the code uses: two code units are the same
  letter when they are equal or one is a capital letter and the other one the small
  letter at the same place of the alphabet (A to Z, and the accented capitals 192 to 222
  of Latin-1 without the multiplication sign, with the small letters 224 to 254 without
  the division sign). A term occurs in a text when, at some position of the text, every
  code unit of the term is the same letter as the code unit of the text there.
\<close>

definition capital_letters :: string where
  "capital_letters =
     ''ABCDEFGHIJKLMNOPQRSTUVWXYZ'' @
       [CHR 0xC0, CHR 0xC1, CHR 0xC2, CHR 0xC3, CHR 0xC4, CHR 0xC5,
        CHR 0xC6, CHR 0xC7, CHR 0xC8, CHR 0xC9, CHR 0xCA, CHR 0xCB,
        CHR 0xCC, CHR 0xCD, CHR 0xCE, CHR 0xCF, CHR 0xD0, CHR 0xD1,
        CHR 0xD2, CHR 0xD3, CHR 0xD4, CHR 0xD5, CHR 0xD6, CHR 0xD8,
        CHR 0xD9, CHR 0xDA, CHR 0xDB, CHR 0xDC, CHR 0xDD, CHR 0xDE]"

definition small_letters :: string where
  "small_letters =
     ''abcdefghijklmnopqrstuvwxyz'' @
       [CHR 0xE0, CHR 0xE1, CHR 0xE2, CHR 0xE3, CHR 0xE4, CHR 0xE5,
        CHR 0xE6, CHR 0xE7, CHR 0xE8, CHR 0xE9, CHR 0xEA, CHR 0xEB,
        CHR 0xEC, CHR 0xED, CHR 0xEE, CHR 0xEF, CHR 0xF0, CHR 0xF1,
        CHR 0xF2, CHR 0xF3, CHR 0xF4, CHR 0xF5, CHR 0xF6, CHR 0xF8,
        CHR 0xF9, CHR 0xFA, CHR 0xFB, CHR 0xFC, CHR 0xFD, CHR 0xFE]"

definition same_letter :: "char \<Rightarrow> char \<Rightarrow> bool" where
  "same_letter a b =
     (a = b \<or> (a, b) \<in> set (zip capital_letters small_letters)
            \<or> (b, a) \<in> set (zip capital_letters small_letters))"

fun ci_prefix :: "string \<Rightarrow> string \<Rightarrow> bool" where
  "ci_prefix [] s = True"
| "ci_prefix (a # as) [] = False"
| "ci_prefix (a # as) (b # bs) = (same_letter a b \<and> ci_prefix as bs)"

fun ci_substring :: "string \<Rightarrow> string \<Rightarrow> bool" where
  "ci_substring needle [] = (needle = [])"
| "ci_substring needle (c # cs) = (ci_prefix needle (c # cs) \<or> ci_substring needle cs)"

definition spec_view_ok :: "View \<Rightarrow> PromptEntry \<Rightarrow> bool" where
  "spec_view_ok v p = (v = ViewFavorites \<longrightarrow> isFavorite p = Some True)"

definition spec_text_ok :: "string \<Rightarrow> PromptEntry \<Rightarrow> bool" where
  "spec_text_ok searchTerm p =
     (ci_substring searchTerm (prompt p)
      \<or> (case model p of None \<Rightarrow> False | Some m \<Rightarrow> ci_substring searchTerm m)
      \<or> (\<exists>t\<in>set (tags p). ci_substring searchTerm t))"

definition spec_tags_ok :: "string set \<Rightarrow> PromptEntry \<Rightarrow> bool" where
  "spec_tags_ok selectedTags p = (selectedTags = {} \<or> set (tags p) \<inter> selectedTags \<noteq> {})"

definition spec_passes :: "string \<Rightarrow> string set \<Rightarrow> View \<Rightarrow> PromptEntry \<Rightarrow> bool" where
  "spec_passes searchTerm selectedTags v p =
     (spec_view_ok v p \<and> spec_text_ok searchTerm p \<and> spec_tags_ok selectedTags p)"

text \<open>The time stamp of an entry whose creation date parses.\<close>

definition timeOf :: "(string \<Rightarrow> int option) \<Rightarrow> PromptEntry \<Rightarrow> int" where
  "timeOf getTime p = the (getTime (createdAt p))"

section \<open>The entry editor (src/components/PromptModal.tsx)\<close>

record ValidationErrors =
  prompt_err :: "string option"
  image_err :: "string option"

record EditorState =
  prompt_st :: string
  beforeImage_st :: "string option"
  afterImage_st :: "string option"
  model_st :: string
  parameters_st :: "PromptParameter list"
  tags_st :: "string list"
  tagInput_st :: string
  errors_st :: ValidationErrors

text \<open>
  \<^verbatim>\<open>handleSave\<close>. The arguments \<open>generateId\<close> and \<open>nowISO\<close> are what \<^verbatim>\<open>generateId()\<close>
  and \<^verbatim>\<open>new Date().toISOString()\<close> return at this call. The result is the editor state
  after the call and the entry handed to \<^verbatim>\<open>onSave\<close>, \<^const>\<open>None\<close> when the function
  returns early.
\<close>

definition handleSave ::
  "PromptEntry option \<Rightarrow> string \<Rightarrow> string \<Rightarrow> EditorState \<Rightarrow> EditorState \<times> PromptEntry option" where
  "handleSave initialData generateId nowISO st =
     (let currentErrors =
            \<lparr> prompt_err = (if \<not> truthy_str (js_trim (prompt_st st))
                             then Some ''Prompt is required.'' else None),
              image_err = (if \<not> truthy_opt (beforeImage_st st) \<and> \<not> truthy_opt (afterImage_st st)
                            then Some ''At least one image (Before or After) is required.''
                            else None) \<rparr>
      in if prompt_err currentErrors \<noteq> None \<or> image_err currentErrors \<noteq> None
         then (st\<lparr>errors_st := currentErrors\<rparr>, None)
         else
           (let finalTags =
                  (if truthy_str (js_trim (tagInput_st st))
                      \<and> js_trim (tagInput_st st) \<notin> set (tags_st st)
                   then tags_st st @ [js_trim (tagInput_st st)]
                   else tags_st st);
                newEntry =
                  \<lparr> entryId = (case initialData of
                                 None \<Rightarrow> generateId
                               | Some d \<Rightarrow> if truthy_str (entryId d) then entryId d else generateId),
                    beforeImage = beforeImage_st st,
                    afterImage = afterImage_st st,
                    prompt = prompt_st st,
                    model = Some (model_st st),
                    parameters = filter (\<lambda>p. js_trim (key p) \<noteq> []) (parameters_st st),
                    tags = finalTags,
                    createdAt = (case initialData of
                                   None \<Rightarrow> nowISO
                                 | Some d \<Rightarrow> if truthy_str (createdAt d) then createdAt d else nowISO),
                    isFavorite = None \<rparr>
            in (st, Some newEntry)))"

text \<open>The editor's save followed by the application's \<^verbatim>\<open>onSave\<close> handler
  (\<^verbatim>\<open>handleSavePrompt\<close>): the store is touched only when an entry was produced.\<close>

definition saveToStore ::
  "PromptEntry option \<Rightarrow> string \<Rightarrow> string \<Rightarrow> EditorState \<Rightarrow> PromptEntry list
     \<Rightarrow> EditorState \<times> PromptEntry list" where
  "saveToStore initialData generateId nowISO st store =
     (case handleSave initialData generateId nowISO st of
        (st', None) \<Rightarrow> (st', store)
      | (st', Some entry) \<Rightarrow> (st', handleSavePrompt entry store))"

section \<open>Spreadsheet export and import (src/utils/storageManager.ts)\<close>

text \<open>
  One data row of the worksheet, keyed as \<^verbatim>\<open>worksheet.columns\<close> declares it; in a
  workbook that is read, \<^verbatim>\<open>row.values\<close> holds the ten cells at the indices 1 to 10. A
  text cell is a string, the empty string standing for an empty cell as well (both are
  falsy wherever the import tests a cell). Writing the workbook to a file and loading it
  again is the work of the spreadsheet library, which is not part of the repository and
  may hand back a cell text that differs from the one written; the export below gives the
  rows written, the import takes the rows read, and \<open>read_back\<close> further down relates
  the two.
\<close>

record ExcelRow =
  no_cell :: nat
  beforeImage_cell :: string
  afterImage_cell :: string
  prompt_cell :: string
  model_cell :: string
  tags_cell :: string
  parameters_cell :: string
  createdAt_cell :: string
  favorite_cell :: string
  id_cell :: string

text \<open>The row that \<^verbatim>\<open>worksheet.addRow\<close> receives for the entry at index \<open>i\<close>. The
  parameter \<open>toLocaleString\<close> is \<^verbatim>\<open>new Date(s).toLocaleString()\<close>.\<close>

definition exportRow :: "(string \<Rightarrow> string) \<Rightarrow> nat \<Rightarrow> PromptEntry \<Rightarrow> ExcelRow" where
  "exportRow toLocaleString i p =
     \<lparr> no_cell = i + 1,
       beforeImage_cell = [],
       afterImage_cell = [],
       prompt_cell = prompt p,
       model_cell = (if truthy_opt (model p) then the (model p) else []),
       tags_cell = js_join '', '' (tags p),
       parameters_cell = js_join ''; '' (map (\<lambda>q. key q @ '': '' @ pvalue q) (parameters p)),
       createdAt_cell = toLocaleString (createdAt p),
       favorite_cell = (if truthy_bool (isFavorite p) then ''Yes'' else ''No''),
       id_cell = entryId p \<rparr>"

definition exportRows :: "(string \<Rightarrow> string) \<Rightarrow> PromptEntry list \<Rightarrow> ExcelRow list" where
  "exportRows toLocaleString prompts =
     map (\<lambda>(i, p). exportRow toLocaleString i p) (enumerate 0 prompts)"

text \<open>
  What the import takes from its environment: \<open>randomUUID k\<close> is the result of the
  \<open>k\<close>-th call of \<^verbatim>\<open>crypto.randomUUID()\<close>, \<open>dateToISO s\<close> is
  \<^verbatim>\<open>new Date(s).toISOString()\<close> (\<^const>\<open>None\<close> when it throws on an invalid date) and
  \<open>importTime\<close> is \<^verbatim>\<open>new Date().toISOString()\<close>.
\<close>

record ImportEnv =
  randomUUID :: "nat \<Rightarrow> string"
  dateToISO :: "string \<Rightarrow> string option"
  importTime :: string

datatype import_error = WorksheetNotFound | InvalidTimeValue

definition nth_opt :: "'a list \<Rightarrow> nat \<Rightarrow> 'a option" where
  "nth_opt xs i = (if i < length xs then Some (xs ! i) else None)"

fun or_empty :: "string option \<Rightarrow> string" where
  "or_empty None = []"
| "or_empty (Some s) = s"

text \<open>One piece of the parameters cell; \<open>k\<close> counts the calls of \<^verbatim>\<open>randomUUID\<close>.\<close>

definition parseParameter :: "(nat \<Rightarrow> string) \<Rightarrow> nat \<times> string \<Rightarrow> PromptParameter" where
  "parseParameter uuid = (\<lambda>(k, p).
     (let kv = map js_trim (js_split CHR '':'' p)
      in \<lparr> paramId = uuid k,
           key = or_empty (nth_opt kv 0),
           pvalue = or_empty (nth_opt kv 1) \<rparr>))"

definition parseParameters :: "(nat \<Rightarrow> string) \<Rightarrow> nat \<Rightarrow> string \<Rightarrow> PromptParameter list \<times> nat" where
  "parseParameters uuid n parametersStr =
     (if truthy_str parametersStr
      then (let pieces = js_split CHR '';'' parametersStr
            in (filter (\<lambda>p. truthy_str (key p) \<and> truthy_str (pvalue p))
                  (map (parseParameter uuid) (enumerate n pieces)),
                n + length pieces))
      else ([], n))"

definition parseTags :: "string \<Rightarrow> string list" where
  "parseTags tagsStr =
     (if truthy_str tagsStr
      then filter truthy_str (map js_trim (js_split CHR '','' tagsStr))
      else [])"

text \<open>The callback of \<^verbatim>\<open>worksheet.eachRow\<close> on a data row: the entry pushed and the
  number of identifiers drawn so far, or the error thrown.\<close>

definition importRow :: "ImportEnv \<Rightarrow> nat \<Rightarrow> ExcelRow \<Rightarrow> import_error + (PromptEntry \<times> nat)" where
  "importRow env n rowData =
     (let (params, n1) = parseParameters (randomUUID env) n (parameters_cell rowData);
          tgs = parseTags (tags_cell rowData);
          (ident, n2) = (if truthy_str (id_cell rowData) then (id_cell rowData, n1)
                         else (randomUUID env n1, Suc n1))
      in case (if truthy_str (createdAt_cell rowData) then dateToISO env (createdAt_cell rowData)
               else Some (importTime env)) of
           None \<Rightarrow> Inl InvalidTimeValue
         | Some created \<Rightarrow>
             Inr (\<lparr> entryId = ident,
                    beforeImage = None,
                    afterImage = None,
                    prompt = prompt_cell rowData,
                    model = (if truthy_str (model_cell rowData) then Some (model_cell rowData)
                             else None),
                    parameters = params,
                    tags = tgs,
                    createdAt = created,
                    isFavorite = Some (favorite_cell rowData = ''Yes'') \<rparr>, n2))"

fun importRows :: "ImportEnv \<Rightarrow> nat \<Rightarrow> ExcelRow list \<Rightarrow> import_error + PromptEntry list" where
  "importRows env n [] = Inr []"
| "importRows env n (r # rs) =
     (case importRow env n r of
        Inl e \<Rightarrow> Inl e
      | Inr (p, n') \<Rightarrow>
          (case importRows env n' rs of
             Inl e \<Rightarrow> Inl e
           | Inr ps \<Rightarrow> Inr (p # ps)))"

text \<open>\<^verbatim>\<open>importFromExcel\<close> on the data rows that the loaded workbook holds in the
  worksheet named Prompts (\<^const>\<open>None\<close> when the workbook has no such worksheet).\<close>

definition importFromExcel :: "ImportEnv \<Rightarrow> ExcelRow list option \<Rightarrow> import_error + PromptEntry list" where
  "importFromExcel env worksheet =
     (case worksheet of
        None \<Rightarrow> Inl WorksheetNotFound
      | Some rws \<Rightarrow> importRows env 0 rws)"

text \<open>
  What a round trip through the worksheet keeps. A tag survives when it is not empty, has
  no comma and no white space at its ends; a parameter survives when its key and its value
  are not empty, have no colon, no semicolon and no white space at their ends. An entry
  \<open>q\<close> reproduces an entry \<open>p\<close> when it has the prompt of \<open>p\<close>, the model of \<open>p\<close> (an empty
  model counting as none), the tags and the key/value pairs of \<open>p\<close> in order where these
  survive, the favorite flag of \<open>p\<close> as a boolean, and no image.
\<close>

text \<open>A row read from the file is the written row \<open>r\<close> read back when the texts of its
  prompt, model, tags, parameters and favorite cells are the ones written.\<close>

definition read_back :: "ExcelRow \<Rightarrow> ExcelRow \<Rightarrow> bool" where
  "read_back r r' =
     (prompt_cell r' = prompt_cell r
      \<and> model_cell r' = model_cell r
      \<and> tags_cell r' = tags_cell r
      \<and> parameters_cell r' = parameters_cell r
      \<and> favorite_cell r' = favorite_cell r)"

definition text_safe :: "char list \<Rightarrow> string \<Rightarrow> bool" where
  "text_safe seps t = (t \<noteq> [] \<and> js_trim t = t \<and> (\<forall>c\<in>set seps. c \<notin> set t))"

text \<open>The text of one parameter inside the parameters cell.\<close>

definition param_text :: "PromptParameter \<Rightarrow> string" where
  "param_text q = key q @ '': '' @ pvalue q"

definition tags_safe :: "PromptEntry \<Rightarrow> bool" where
  "tags_safe p = (\<forall>t\<in>set (tags p). text_safe '','' t)"

definition params_safe :: "PromptEntry \<Rightarrow> bool" where
  "params_safe p = (\<forall>q\<in>set (parameters p). text_safe '':;'' (key q) \<and> text_safe '':;'' (pvalue q))"

definition key_value :: "PromptParameter \<Rightarrow> string \<times> string" where
  "key_value q = (key q, pvalue q)"

definition reproduces :: "PromptEntry \<Rightarrow> PromptEntry \<Rightarrow> bool" where
  "reproduces p q =
     (prompt q = prompt p
      \<and> model q = (if truthy_opt (model p) then model p else None)
      \<and> (tags_safe p \<longrightarrow> tags q = tags p)
      \<and> (params_safe p \<longrightarrow> map key_value (parameters q) = map key_value (parameters p))
      \<and> isFavorite q = Some (truthy_bool (isFavorite p))
      \<and> beforeImage q = None \<and> afterImage q = None)"

section \<open>Image reattachment (\<^verbatim>\<open>matchImagesToPrompts\<close>)\<close>

definition is_digit :: "char \<Rightarrow> bool" where
  "is_digit c = (48 \<le> (of_char c :: nat) \<and> (of_char c :: nat) \<le> 57)"

text \<open>
  The regular expression \<^verbatim>\<open>/^(\d+)_(Before|After)\./i\<close>: a non-empty run of digits, an
  underscore, one of the two words in any letter case, a dot. The result is the two
  groups of the match.
\<close>

definition match_filename :: "string \<Rightarrow> (string \<times> string) option" where
  "match_filename filename =
     (let ds = takeWhile is_digit filename;
          rest = dropWhile is_digit filename
      in if ds = [] then None
         else (case rest of
                 [] \<Rightarrow> None
               | c # r \<Rightarrow>
                   if c \<noteq> CHR ''_'' then None
                   else if toLowerCase (take 6 r) = ''before'' \<and> take 1 (drop 6 r) = ''.''
                     then Some (ds, take 6 r)
                   else if toLowerCase (take 5 r) = ''after'' \<and> take 1 (drop 5 r) = ''.''
                     then Some (ds, take 5 r)
                   else None))"

text \<open>\<^verbatim>\<open>parseInt\<close> on a run of decimal digits, as an exact number: the floating-point
  result differs from it only beyond \<open>2^53\<close>, where neither equals the position of an
  array element.\<close>

definition parseInt :: "string \<Rightarrow> nat" where
  "parseInt ds = foldl (\<lambda>n c. 10 * n + (of_char c - 48)) 0 ds"

text \<open>The body of \<^verbatim>\<open>imageMap.forEach\<close>, on the pair of the two local variables
  \<^verbatim>\<open>beforeImage\<close> and \<^verbatim>\<open>afterImage\<close>.\<close>

definition matchStep ::
  "nat \<Rightarrow> string \<times> string \<Rightarrow> string option \<times> string option \<Rightarrow> string option \<times> string option" where
  "matchStep promptNumber = (\<lambda>(filename, base64) (bImg, aImg).
     (case match_filename filename of
        None \<Rightarrow> (bImg, aImg)
      | Some (g1, g2) \<Rightarrow>
          (let fileNumber = parseInt g1; type = toLowerCase g2
           in if fileNumber = promptNumber
              then (if type = ''before'' then (Some base64, aImg)
                    else if type = ''after'' then (bImg, Some base64)
                    else (bImg, aImg))
              else (bImg, aImg))))"

text \<open>The image map is a \<^verbatim>\<open>Map\<close>, visited in insertion order: a list of pairs of a
  file name and its data.\<close>

definition matchImagesToPrompts ::
  "PromptEntry list \<Rightarrow> (string \<times> string) list \<Rightarrow> PromptEntry list" where
  "matchImagesToPrompts prompts imageMap =
     map (\<lambda>(index, p).
            (let promptNumber = index + 1;
                 (bImg, aImg) = fold (matchStep promptNumber) imageMap (beforeImage p, afterImage p)
             in p\<lparr>beforeImage := bImg, afterImage := aImg\<rparr>))
         (enumerate 0 prompts)"

text \<open>The slot a file name addresses, and the data of the last file of the map that
  addresses a given slot.\<close>

definition slot_of :: "string \<Rightarrow> (nat \<times> string) option" where
  "slot_of filename =
     (case match_filename filename of
        None \<Rightarrow> None
      | Some (g1, g2) \<Rightarrow> Some (parseInt g1, toLowerCase g2))"

definition last_match :: "nat \<Rightarrow> string \<Rightarrow> (string \<times> string) list \<Rightarrow> string option" where
  "last_match n kind imageMap =
     (let ms = filter (\<lambda>(f, d). slot_of f = Some (n, kind)) imageMap
      in if ms = [] then None else Some (snd (last ms)))"

section \<open>Example data\<close>

definition entry0 :: "string \<Rightarrow> string \<Rightarrow> string list \<Rightarrow> string \<Rightarrow> PromptEntry" where
  "entry0 i text tgs created =
     \<lparr> entryId = i, beforeImage = Some ''data:image/png;base64,AAAA'', afterImage = None,
       prompt = text, model = Some ''sdxl'', parameters = [], tags = tgs,
       createdAt = created, isFavorite = Some True \<rparr>"

definition env0 :: ImportEnv where
  "env0 = \<lparr> randomUUID = (\<lambda>k. ''uuid-'' @ replicate k CHR ''x''),
            dateToISO = (\<lambda>s. if s = ''1/1/2024, 12:00:00 AM''
                             then Some ''2024-01-01T00:00:00.000Z'' else None),
            importTime = ''2024-03-03T09:30:00.000Z'' \<rparr>"

definition entry1 :: PromptEntry where
  "entry1 =
     \<lparr> entryId = ''k3x9'', beforeImage = Some ''data:image/png;base64,AAAA'', afterImage = None,
       prompt = ''a cat, sitting: studio light'', model = Some ''sdxl'',
       parameters = [\<lparr>paramId = ''p1'', key = ''steps'', pvalue = ''20''\<rparr>,
                     \<lparr>paramId = ''p2'', key = ''cfg scale'', pvalue = ''7.5''\<rparr>],
       tags = [''portrait'', ''black cat''],
       createdAt = ''2024-01-01T00:00:00.000Z'', isFavorite = None \<rparr>"

definition entry2 :: PromptEntry where
  "entry2 =
     \<lparr> entryId = ''k3x9'', beforeImage = Some ''data:image/png;base64,AAAA'', afterImage = None,
       prompt = ''a cat'', model = Some ''sdxl'',
       parameters = [\<lparr>paramId = ''p1'', key = ''seed'', pvalue = []\<rparr>],
       tags = [''cats,dogs''],
       createdAt = ''2024-01-01T00:00:00.000Z'', isFavorite = Some True \<rparr>"

text \<open>Two rows of a worksheet with the same text in the ID column, and the two
  entries that the import makes of them.\<close>

definition dupRows :: "ExcelRow list" where
  "dupRows =
     [\<lparr> no_cell = 1, beforeImage_cell = [], afterImage_cell = [], prompt_cell = ''a cat'',
        model_cell = ''sdxl'', tags_cell = [], parameters_cell = [],
        createdAt_cell = ''1/1/2024, 12:00:00 AM'', favorite_cell = ''No'', id_cell = ''k3x9'' \<rparr>,
      \<lparr> no_cell = 2, beforeImage_cell = [], afterImage_cell = [], prompt_cell = ''a dog'',
        model_cell = ''sdxl'', tags_cell = [], parameters_cell = [],
        createdAt_cell = [], favorite_cell = ''No'', id_cell = ''k3x9'' \<rparr>]"

definition dupA :: PromptEntry where
  "dupA =
     \<lparr> entryId = ''k3x9'', beforeImage = None, afterImage = None, prompt = ''a cat'',
       model = Some ''sdxl'', parameters = [], tags = [],
       createdAt = ''2024-01-01T00:00:00.000Z'', isFavorite = Some False \<rparr>"

definition dupB :: PromptEntry where
  "dupB =
     \<lparr> entryId = ''k3x9'', beforeImage = None, afterImage = None, prompt = ''a dog'',
       model = Some ''sdxl'', parameters = [], tags = [],
       createdAt = ''2024-03-03T09:30:00.000Z'', isFavorite = Some False \<rparr>"

definition toLocale0 :: "string \<Rightarrow> string" where
  "toLocale0 s = (if s = ''2024-01-01T00:00:00.000Z'' then ''1/1/2024, 12:00:00 AM''
                  else ''Invalid Date'')"

definition getTime0 :: "string \<Rightarrow> int option" where
  "getTime0 s = (if s = ''2024-01-01T00:00:00.000Z'' then Some 1704067200000
                 else if s = ''2024-02-02T00:00:00.000Z'' then Some 1706832000000
                 else None)"

definition editor0 :: EditorState where
  "editor0 =
     \<lparr> prompt_st = ''a cat'', beforeImage_st = Some ''data:image/png;base64,AAAA'',
       afterImage_st = None, model_st = ''sdxl'',
       parameters_st = [\<lparr>paramId = ''p1'', key = ''steps'', pvalue = ''20''\<rparr>,
                        \<lparr>paramId = ''p2'', key = [], pvalue = ''7''\<rparr>],
       tags_st = [''a'', ''b''], tagInput_st = '' c '',
       errors_st = \<lparr>prompt_err = None, image_err = None\<rparr> \<rparr>"

section \<open>Store update: replace in place or prepend\<close>

lemma findIndex_none: "(\<forall>x\<in>set xs. \<not> P x) \<Longrightarrow> findIndex P xs = - 1"
  by (induction xs) (simp_all add: Let_def)

lemma findIndex_ge: "- 1 \<le> findIndex P xs"
  by (induction xs) (simp_all add: Let_def)

lemma findIndex_first:
  "\<exists>x\<in>set xs. P x \<Longrightarrow>
   0 \<le> findIndex P xs \<and> nat (findIndex P xs) < length xs \<and> P (xs ! nat (findIndex P xs))
   \<and> (\<forall>j < nat (findIndex P xs). \<not> P (xs ! j))"
proof (induction xs)
  case Nil
  then show ?case by simp
next
  case (Cons x xs)
  show ?case
  proof (cases "P x")
    case True
    then show ?thesis by simp
  next
    case False
    with Cons.prems have ex: "\<exists>y\<in>set xs. P y" by auto
    from Cons.IH [OF ex] obtain i where i: "findIndex P xs = int i" "i < length xs" "P (xs ! i)"
      "\<forall>j<i. \<not> P (xs ! j)"
      by (metis nat_int zero_le_imp_eq_int)
    have fi: "findIndex P (x # xs) = int (Suc i)"
      using False i(1) by (simp add: Let_def)
    then have n: "nat (findIndex P (x # xs)) = Suc i"
      by (simp only: nat_int)
    have "\<forall>j<Suc i. \<not> P ((x # xs) ! j)"
      using False i(4) by (auto simp: nth_Cons split: nat.splits)
    then show ?thesis
      unfolding n using i(2,3) fi by simp
  qed
qed

text \<open>
  C3. Upserting \<open>e\<close> when some stored entry has its id replaces the first such entry in
  place: the result is the store with position \<open>i\<close> overwritten, so the position is kept,
  the count is unchanged and every other entry is unchanged. Upserting \<open>e\<close> when no stored
  entry has its id puts \<open>e\<close> in front of the unchanged store, so the count grows by one.
\<close>

theorem upsert_replace_or_prepend:
  "((\<exists>p\<in>set prev. entryId p = entryId e) \<longrightarrow>
      (\<exists>i<length prev. entryId (prev ! i) = entryId e
          \<and> (\<forall>j<i. entryId (prev ! j) \<noteq> entryId e)
          \<and> handleSavePrompt e prev = prev[i := e])
      \<and> length (handleSavePrompt e prev) = length prev)
   \<and> ((\<forall>p\<in>set prev. entryId p \<noteq> entryId e) \<longrightarrow>
      handleSavePrompt e prev = e # prev
      \<and> length (handleSavePrompt e prev) = Suc (length prev))"
proof (intro conjI impI)
  assume ex: "\<exists>p\<in>set prev. entryId p = entryId e"
  let ?i = "findIndex (\<lambda>p. entryId p = entryId e) prev"
  from findIndex_first [of prev "\<lambda>p. entryId p = entryId e", OF ex]
  have f: "0 \<le> ?i" "nat ?i < length prev" "entryId (prev ! nat ?i) = entryId e"
    "\<forall>j<nat ?i. entryId (prev ! j) \<noteq> entryId e"
    by auto
  have upd: "handleSavePrompt e prev = prev[nat ?i := e]"
    using f(1) by (simp add: handleSavePrompt_def Let_def)
  show "\<exists>i<length prev. entryId (prev ! i) = entryId e
          \<and> (\<forall>j<i. entryId (prev ! j) \<noteq> entryId e)
          \<and> handleSavePrompt e prev = prev[i := e]"
    using f upd by blast
  show "length (handleSavePrompt e prev) = length prev"
    using upd by simp
next
  assume no: "\<forall>p\<in>set prev. entryId p \<noteq> entryId e"
  then have "findIndex (\<lambda>p. entryId p = entryId e) prev = - 1"
    by (intro findIndex_none) simp
  then show "handleSavePrompt e prev = e # prev"
    by (simp add: handleSavePrompt_def)
  then show "length (handleSavePrompt e prev) = Suc (length prev)"
    by simp
qed

theorem upsert_replace_or_prepend_witness:
  "(\<exists>p\<in>set [entry0 ''a'' ''x'' [] ''t1'', entry0 ''b'' ''y'' [] ''t2''].
        entryId p = entryId (entry0 ''b'' ''new'' [] ''t3''))
   \<and> length (handleSavePrompt (entry0 ''b'' ''new'' [] ''t3'')
               [entry0 ''a'' ''x'' [] ''t1'', entry0 ''b'' ''y'' [] ''t2'']) = 2
   \<and> entryId (entry0 ''a'' ''x'' [] ''t1'') \<noteq> entryId (entry0 ''c'' ''z'' [] ''t3'')
   \<and> handleSavePrompt (entry0 ''c'' ''z'' [] ''t3'') [entry0 ''a'' ''x'' [] ''t1'']
       = [entry0 ''c'' ''z'' [] ''t3'', entry0 ''a'' ''x'' [] ''t1'']"
proof -
  have h1: "\<exists>p\<in>set [entry0 ''a'' ''x'' [] ''t1'', entry0 ''b'' ''y'' [] ''t2''].
              entryId p = entryId (entry0 ''b'' ''new'' [] ''t3'')"
    by (simp add: entry0_def)
  have h2: "\<forall>p\<in>set [entry0 ''a'' ''x'' [] ''t1''].
              entryId p \<noteq> entryId (entry0 ''c'' ''z'' [] ''t3'')"
    by (simp add: entry0_def)
  have "length (handleSavePrompt (entry0 ''b'' ''new'' [] ''t3'')
               [entry0 ''a'' ''x'' [] ''t1'', entry0 ''b'' ''y'' [] ''t2''])
          = length [entry0 ''a'' ''x'' [] ''t1'', entry0 ''b'' ''y'' [] ''t2'']"
    using upsert_replace_or_prepend [THEN conjunct1, THEN mp, OF h1] by (rule conjunct2)
  then have c1: "length (handleSavePrompt (entry0 ''b'' ''new'' [] ''t3'')
               [entry0 ''a'' ''x'' [] ''t1'', entry0 ''b'' ''y'' [] ''t2'']) = 2"
    by simp
  have c2: "handleSavePrompt (entry0 ''c'' ''z'' [] ''t3'') [entry0 ''a'' ''x'' [] ''t1'']
       = [entry0 ''c'' ''z'' [] ''t3'', entry0 ''a'' ''x'' [] ''t1'']"
    using upsert_replace_or_prepend [THEN conjunct2, THEN mp, OF h2] by (rule conjunct1)
  from h1 c1 h2 c2 show ?thesis by simp
qed

section \<open>Pagination\<close>

lemma concat_pages_nat:
  "concat (map (\<lambda>k. take m (drop (k * m) xs)) [0..<n]) = take (n * m) xs"
proof (induction n)
  case 0 show ?case by simp
next
  case (Suc n)
  have "take (n * m) xs @ take m (drop (n * m) xs) = take (n * m + m) xs"
    by (simp add: take_add)
  with Suc show ?case by (simp add: add.commute)
qed

lemma upto_as_map: "[1..int n] = map (\<lambda>k. int k + 1) [0..<n]"
proof (induction n)
  case 0 show ?case by simp
next
  case (Suc n)
  have "[1..int (Suc n)] = [1..int n] @ [int n + 1]"
    using upto_rec2 [of 1 "int n + 1"] by (simp add: add.commute)
  with Suc show ?case by simp
qed

lemma js_slice_nat:
  "js_slice xs (int s) (int s + int m) = take m (drop s xs)"
proof -
  have k: "min (int s) (int (length xs)) = int (min s (length xs))" by simp
  have f: "min (int s + int m) (int (length xs)) = int (min (s + m) (length xs))" by simp
  have "js_slice xs (int s) (int s + int m)
        = take (min (s + m) (length xs) - min s (length xs)) (drop (min s (length xs)) xs)"
    unfolding js_slice_def Let_def k f by (simp add: nat_diff_distrib del: of_nat_min of_nat_add)
  also have "\<dots> = take m (drop s xs)"
  proof (cases "s \<le> length xs")
    case True
    show ?thesis
    proof (cases "s + m \<le> length xs")
      case True
      then show ?thesis by (simp add: min_def)
    next
      case False
      with True show ?thesis by (simp add: min_def)
    qed
  next
    case False
    then show ?thesis by (simp add: min_def)
  qed
  finally show ?thesis .
qed

lemma paginated_take_drop:
  "1 \<le> page \<Longrightarrow> paginatedPrompts fl page
     = take ITEMS_PER_PAGE (drop (nat (page - 1) * ITEMS_PER_PAGE) fl)"
proof -
  assume p: "1 \<le> page"
  have se: "(page - 1) * int ITEMS_PER_PAGE = int (nat (page - 1) * ITEMS_PER_PAGE)"
    using p by simp
  show ?thesis
    unfolding paginatedPrompts_def Let_def se by (rule js_slice_nat)
qed

lemma paginated_length: "length (paginatedPrompts fl page) \<le> ITEMS_PER_PAGE"
  unfolding paginatedPrompts_def js_slice_def Let_def
  by (auto simp: min_def max_def)

lemma totalPages_nat: "totalPages fl = int ((length fl + 11) div 12)"
  unfolding totalPages_def ITEMS_PER_PAGE_def by (simp add: zdiv_int)

lemma concat_all_pages: "concat (map (paginatedPrompts fl) [1..totalPages fl]) = fl"
proof -
  let ?n = "(length fl + 11) div 12"
  have "map (paginatedPrompts fl) [1..totalPages fl]
        = map (\<lambda>k. take ITEMS_PER_PAGE (drop (k * ITEMS_PER_PAGE) fl)) [0..<?n]"
    unfolding totalPages_nat upto_as_map by (simp add: paginated_take_drop)
  then have "concat (map (paginatedPrompts fl) [1..totalPages fl]) = take (?n * ITEMS_PER_PAGE) fl"
    by (simp only: concat_pages_nat)
  moreover have "length fl \<le> ?n * ITEMS_PER_PAGE"
    unfolding ITEMS_PER_PAGE_def by linarith
  ultimately show ?thesis by simp
qed

lemma paginated_page_zero: "paginatedPrompts fl 0 = []"
  unfolding paginatedPrompts_def js_slice_def Let_def ITEMS_PER_PAGE_def
  by (simp add: max_def)

text \<open>
  C8. With a page size of 12, a page number \<open>page \<ge> 1\<close> selects exactly the elements at
  the indices from \<open>(page - 1) * 12\<close> up to, and without, \<open>page * 12\<close> (and the page
  number 0 selects nothing); no page, whatever its number, has more than 12 elements; and
  the pages 1 to \<open>totalPages\<close>, concatenated in order, are the filtered sequence itself, so
  each element appears exactly once.
\<close>

theorem paginate_slices_and_covers:
  "(1 \<le> page \<longrightarrow>
      paginatedPrompts fl page
        = take ITEMS_PER_PAGE (drop (nat (page - 1) * ITEMS_PER_PAGE) fl))
   \<and> paginatedPrompts fl 0 = []
   \<and> length (paginatedPrompts fl page) \<le> ITEMS_PER_PAGE
   \<and> concat (map (paginatedPrompts fl) [1..totalPages fl]) = fl"
  using paginated_take_drop [of page fl] paginated_page_zero [of fl]
    paginated_length [of fl page] concat_all_pages [of fl]
  by blast

theorem paginate_slices_and_covers_witness:
  "(1::int) \<le> 2 \<and> paginatedPrompts ''abcdefghijklmn'' 2 = ''mn''"
proof -
  have h: "(1::int) \<le> 2" by simp
  from paginate_slices_and_covers [of 2 "''abcdefghijklmn''"] h
  have "paginatedPrompts ''abcdefghijklmn'' 2
          = take ITEMS_PER_PAGE (drop (nat (2 - 1) * ITEMS_PER_PAGE) ''abcdefghijklmn'')"
    by blast
  then show ?thesis by (simp add: ITEMS_PER_PAGE_def)
qed

section \<open>The page-clamp effect\<close>

text \<open>
  C2, as stated, fails on the empty result: with no filtered entry there are 0 pages, the
  page 3 exceeds them, and the effect leaves the page at 3 instead of setting it to 1.
\<close>

theorem page_clamp_empty_counterexample:
  "(3::int) > totalPages ([] :: PromptEntry list)
   \<and> pageClampEffect 3 (totalPages ([] :: PromptEntry list)) = 3
   \<and> pageClampEffect 3 (totalPages ([] :: PromptEntry list)) \<noteq> 1"
  by (simp add: pageClampEffect_def totalPages_def)

text \<open>
  C2, amended. If the page index exceeds the number of available pages and the filtered
  result is not empty, the effect sets the page to the last page, which is at least 1; if
  the filtered result is empty, the effect leaves the page as it is.
\<close>

theorem page_clamp_amended:
  "page > totalPages fl \<Longrightarrow>
     (fl \<noteq> [] \<longrightarrow> pageClampEffect page (totalPages fl) = totalPages fl \<and> 1 \<le> totalPages fl)
     \<and> (fl = [] \<longrightarrow> pageClampEffect page (totalPages fl) = page)"
  unfolding pageClampEffect_def totalPages_nat by (cases fl) auto

theorem page_clamp_amended_witness:
  "(3::int) > totalPages ''abcdefghijklmn'' \<and> ''abcdefghijklmn'' \<noteq> []
   \<and> pageClampEffect 3 (totalPages ''abcdefghijklmn'') = 2
   \<and> (5::int) > totalPages ([] :: PromptEntry list)
   \<and> pageClampEffect 5 (totalPages ([] :: PromptEntry list)) = 5"
proof -
  have t: "totalPages ''abcdefghijklmn'' = 2" "totalPages ([] :: PromptEntry list) = 0"
    by (simp_all add: totalPages_def ITEMS_PER_PAGE_def)
  have h1: "(3::int) > totalPages ''abcdefghijklmn''" and h2: "(5::int) > totalPages ([] :: PromptEntry list)"
    using t by simp_all
  from page_clamp_amended [OF h1] page_clamp_amended [OF h2] h1 h2 t
  show ?thesis by simp
qed

section \<open>The entry editor: validation, construction and the saved entry\<close>

lemma handleSavePrompt_at:
  assumes "i < length store" "entryId (store ! i) = entryId e"
    "\<forall>j<i. entryId (store ! j) \<noteq> entryId e"
  shows "handleSavePrompt e store = store[i := e]"
proof -
  let ?P = "\<lambda>p. entryId p = entryId e"
  have ex: "\<exists>p\<in>set store. ?P p"
    using assms(1,2) nth_mem by blast
  from findIndex_first [of store ?P, OF ex]
  have f: "0 \<le> findIndex ?P store" "nat (findIndex ?P store) < length store"
    "?P (store ! nat (findIndex ?P store))" "\<forall>j<nat (findIndex ?P store). \<not> ?P (store ! j)"
    by auto
  have "nat (findIndex ?P store) = i"
    using assms f by (meson linorder_neqE_nat)
  then show ?thesis
    using f(1) by (simp add: handleSavePrompt_def Let_def)
qed

lemma handleSave_rejected:
  "js_trim (prompt_st st) = [] \<or> (\<not> truthy_opt (beforeImage_st st) \<and> \<not> truthy_opt (afterImage_st st)) \<Longrightarrow>
   handleSave initialData gid now st =
     (st\<lparr>errors_st :=
          \<lparr> prompt_err = (if js_trim (prompt_st st) = [] then Some ''Prompt is required.'' else None),
            image_err = (if \<not> truthy_opt (beforeImage_st st) \<and> \<not> truthy_opt (afterImage_st st)
                            then Some ''At least one image (Before or After) is required.''
                            else None) \<rparr>\<rparr>, None)"
  by (auto simp: handleSave_def Let_def truthy_str_def)

lemma handleSave_accepted:
  "js_trim (prompt_st st) \<noteq> [] \<Longrightarrow> truthy_opt (beforeImage_st st) \<or> truthy_opt (afterImage_st st) \<Longrightarrow>
   handleSave initialData gid now st =
     (st, Some \<lparr> entryId = (case initialData of
                                 None \<Rightarrow> gid
                               | Some d \<Rightarrow> if entryId d \<noteq> [] then entryId d else gid),
                    beforeImage = beforeImage_st st,
                    afterImage = afterImage_st st,
                    prompt = prompt_st st,
                    model = Some (model_st st),
                    parameters = filter (\<lambda>p. js_trim (key p) \<noteq> []) (parameters_st st),
                    tags = (if js_trim (tagInput_st st) \<noteq> []
                      \<and> js_trim (tagInput_st st) \<notin> set (tags_st st)
                   then tags_st st @ [js_trim (tagInput_st st)]
                   else tags_st st),
                    createdAt = (case initialData of
                                   None \<Rightarrow> now
                                 | Some d \<Rightarrow> if createdAt d \<noteq> [] then createdAt d else now),
                    isFavorite = None \<rparr>)"
  by (auto simp: handleSave_def Let_def truthy_str_def split: option.splits)

lemma js_trim_Nil_key: "js_trim k \<noteq> [] \<Longrightarrow> k \<noteq> []"
  by (auto simp: js_trim_def)


text \<open>
  C5, as stated, fails on the tag input: saving with the tags a, b and the pending input
  \<open>a\<close> leaves the tag list a, b, so the non-empty input was not added as a final tag; and
  a pending input of two spaces, also non-empty, is not added at all.
\<close>

theorem save_tag_input_counterexample:
  "tagInput_st (editor0\<lparr>tagInput_st := ''a''\<rparr>) \<noteq> []
   \<and> (\<exists>e. snd (handleSave None ''id1'' ''2024-05-01T10:00:00.000Z'' (editor0\<lparr>tagInput_st := ''a''\<rparr>)) = Some e
          \<and> tags e = [''a'', ''b''] \<and> last (tags e) \<noteq> ''a'')
   \<and> tagInput_st (editor0\<lparr>tagInput_st := ''  ''\<rparr>) \<noteq> []
   \<and> (\<exists>e. snd (handleSave None ''id1'' ''2024-05-01T10:00:00.000Z'' (editor0\<lparr>tagInput_st := ''  ''\<rparr>)) = Some e
          \<and> tags e = [''a'', ''b''])"
  by (simp add: handleSave_def editor0_def Let_def truthy_str_def js_trim_def is_ws_def)

text \<open>
  C5, amended. Save fails with the prompt error when the trimmed prompt is empty (whatever
  the images); it fails with the image error alone when the prompt is not blank and
  neither image is set; it succeeds when the prompt is not blank and an image is set. On
  failure no entry is produced, the store is unchanged and the editor differs from before
  in its error report only. On success the editor is unchanged; the pending tag input,
  trimmed, becomes the final tag when it is not empty and not already among the tags, and
  the tag list is kept as it is otherwise; the parameter rows are those whose trimmed key
  is not empty, so no row with an empty key remains.
\<close>

theorem save_validation_amended:
  "(js_trim (prompt_st st) = [] \<longrightarrow>
      snd (handleSave initialData gid now st) = None
      \<and> prompt_err (errors_st (fst (handleSave initialData gid now st))) = Some ''Prompt is required.'')
   \<and> (js_trim (prompt_st st) \<noteq> [] \<and> \<not> truthy_opt (beforeImage_st st) \<and> \<not> truthy_opt (afterImage_st st) \<longrightarrow>
      snd (handleSave initialData gid now st) = None
      \<and> prompt_err (errors_st (fst (handleSave initialData gid now st))) = None
      \<and> image_err (errors_st (fst (handleSave initialData gid now st)))
           = Some ''At least one image (Before or After) is required.'')
   \<and> (js_trim (prompt_st st) \<noteq> [] \<and> (truthy_opt (beforeImage_st st) \<or> truthy_opt (afterImage_st st)) \<longrightarrow>
      (\<exists>e. handleSave initialData gid now st = (st, Some e)
         \<and> tags e = (if js_trim (tagInput_st st) \<noteq> [] \<and> js_trim (tagInput_st st) \<notin> set (tags_st st)
                     then tags_st st @ [js_trim (tagInput_st st)] else tags_st st)
         \<and> parameters e = filter (\<lambda>p. js_trim (key p) \<noteq> []) (parameters_st st)
         \<and> (\<forall>p\<in>set (parameters e). key p \<noteq> [])))
   \<and> (snd (handleSave initialData gid now st) = None \<longrightarrow>
      (fst (handleSave initialData gid now st))\<lparr>errors_st := errors_st st\<rparr> = st
      \<and> saveToStore initialData gid now st store = (fst (handleSave initialData gid now st), store))"
proof (intro conjI impI)
  assume b: "js_trim (prompt_st st) = []"
  then show "snd (handleSave initialData gid now st) = None"
    and "prompt_err (errors_st (fst (handleSave initialData gid now st))) = Some ''Prompt is required.''"
    by (simp_all add: handleSave_rejected)
next
  assume b: "js_trim (prompt_st st) \<noteq> [] \<and> \<not> truthy_opt (beforeImage_st st) \<and> \<not> truthy_opt (afterImage_st st)"
  then show "snd (handleSave initialData gid now st) = None"
    and "prompt_err (errors_st (fst (handleSave initialData gid now st))) = None"
    and "image_err (errors_st (fst (handleSave initialData gid now st)))
           = Some ''At least one image (Before or After) is required.''"
    by (simp_all add: handleSave_rejected)
next
  assume b: "js_trim (prompt_st st) \<noteq> [] \<and> (truthy_opt (beforeImage_st st) \<or> truthy_opt (afterImage_st st))"
  then have p: "js_trim (prompt_st st) \<noteq> []"
    and i: "truthy_opt (beforeImage_st st) \<or> truthy_opt (afterImage_st st)" by simp_all
  show "\<exists>e. handleSave initialData gid now st = (st, Some e)
         \<and> tags e = (if js_trim (tagInput_st st) \<noteq> [] \<and> js_trim (tagInput_st st) \<notin> set (tags_st st)
                     then tags_st st @ [js_trim (tagInput_st st)] else tags_st st)
         \<and> parameters e = filter (\<lambda>p. js_trim (key p) \<noteq> []) (parameters_st st)
         \<and> (\<forall>p\<in>set (parameters e). key p \<noteq> [])"
    unfolding handleSave_accepted [OF p i] using js_trim_Nil_key by auto
next
  assume n: "snd (handleSave initialData gid now st) = None"
  have r: "js_trim (prompt_st st) = [] \<or> (\<not> truthy_opt (beforeImage_st st) \<and> \<not> truthy_opt (afterImage_st st))"
  proof (rule ccontr)
    assume "\<not> ?thesis"
    then have "js_trim (prompt_st st) \<noteq> []" "truthy_opt (beforeImage_st st) \<or> truthy_opt (afterImage_st st)"
      by auto
    from handleSave_accepted [OF this] n show False by simp
  qed
  show "(fst (handleSave initialData gid now st))\<lparr>errors_st := errors_st st\<rparr> = st"
    unfolding handleSave_rejected [OF r] by simp
  show "saveToStore initialData gid now st store = (fst (handleSave initialData gid now st), store)"
    unfolding saveToStore_def handleSave_rejected [OF r] by simp
qed



lemma distinct_ids_first:
  assumes "distinct (map entryId store)" "i < length store" "entryId e = entryId (store ! i)"
  shows "\<forall>j<i. entryId (store ! j) \<noteq> entryId e"
proof (intro allI impI)
  fix j assume ji: "j < i"
  then have jl: "j < length store" using assms(2) by simp
  have "entryId (store ! j) \<noteq> entryId (store ! i)"
    using nth_eq_iff_index_eq [of "map entryId store" j i] assms(1,2) ji jl by simp
  then show "entryId (store ! j) \<noteq> entryId e"
    using assms(3) by simp
qed

lemma edit_save_entry:
  assumes "handleSave initialData gid now st = (st', Some e)"
  shows "st' = st"
    and "entryId e = (case initialData of None \<Rightarrow> gid
                      | Some d \<Rightarrow> if entryId d \<noteq> [] then entryId d else gid)"
    and "createdAt e = (case initialData of None \<Rightarrow> now
                      | Some d \<Rightarrow> if createdAt d \<noteq> [] then createdAt d else now)"
    and "isFavorite e = None"
  using assms by (auto simp: handleSave_def Let_def truthy_str_def split: if_splits option.splits)

lemma edit_save_store:
  assumes "handleSave (Some (store ! i)) gid now st = (st', Some e)"
    and "i < length store" "entryId (store ! i) \<noteq> []" "distinct (map entryId store)"
  shows "snd (saveToStore (Some (store ! i)) gid now st store) = store[i := e]"
proof -
  have e: "entryId e = entryId (store ! i)"
    using edit_save_entry(2) [OF assms(1)] assms(3) by simp
  have "handleSavePrompt e store = store[i := e]"
    using handleSavePrompt_at [OF assms(2) _ distinct_ids_first [OF assms(4,2) e]] e by simp
  then show ?thesis
    using assms(1) by (simp add: saveToStore_def)
qed

lemma create_save_store:
  assumes "gid \<notin> set (map entryId store)"
  shows "snd (saveToStore None gid now st store) = store
         \<or> (\<exists>e. snd (saveToStore None gid now st store) = e # store
                  \<and> entryId e = gid \<and> createdAt e = now)"
proof (cases "snd (handleSave None gid now st)")
  case None
  then show ?thesis
    by (cases "handleSave None gid now st") (simp add: saveToStore_def)
next
  case (Some e)
  then obtain s' where hs: "handleSave None gid now st = (s', Some e)"
    by (cases "handleSave None gid now st") simp
  have e: "entryId e = gid" "createdAt e = now"
    using edit_save_entry(2,3) [OF hs] by simp_all
  have "\<forall>p\<in>set store. \<not> entryId p = entryId e"
    using assms e(1) by (auto simp: image_iff)
  then have "findIndex (\<lambda>p. entryId p = entryId e) store = - 1"
    by (rule findIndex_none)
  then have "handleSavePrompt e store = e # store"
    by (simp add: handleSavePrompt_def)
  then have "snd (saveToStore None gid now st store) = e # store"
    using hs by (simp add: saveToStore_def)
  with e show ?thesis by blast
qed

text \<open>
  C6, as stated, fails in a store that holds an id twice, which an import produces from a
  worksheet with the same text in two cells of the ID column: saving an edit of the
  second of the two entries overwrites the first one, and the creation date stored at the
  first position changes.
\<close>

theorem edit_save_duplicate_id_counterexample:
  "importFromExcel env0 (Some dupRows) = Inr [dupA, dupB]
   \<and> entryId dupB \<noteq> [] \<and> createdAt dupB \<noteq> []
   \<and> map createdAt [dupA, dupB] = [''2024-01-01T00:00:00.000Z'', ''2024-03-03T09:30:00.000Z'']
   \<and> map createdAt (snd (saveToStore (Some dupB) ''id1'' ''2024-05-01T10:00:00.000Z'' editor0
                             [dupA, dupB]))
       = [''2024-03-03T09:30:00.000Z'', ''2024-03-03T09:30:00.000Z'']"
  by code_simp

text \<open>
  C6, amended. A save that creates an entry (no initial data) takes its id from the id
  generator and its \<open>createdAt\<close> from the clock; the code does not check that the id is
  new. A save that edits an entry \<open>d\<close> with a non-empty id and a non-empty \<open>createdAt\<close>
  reuses both. Every entry that a save builds has a non-empty id and a non-empty
  \<open>createdAt\<close> when the generator and the clock return non-empty strings. In a store
  with pairwise distinct ids, saving an edit of a stored entry leaves every \<open>createdAt\<close>
  of the store as it was (also when the save is rejected); and a creating save whose
  generated id is not in the store leaves the store as it was or puts the new entry in
  front of the unchanged store.
\<close>

theorem edit_save_createdAt_amended:
  "(handleSave None gid now st = (st', Some e) \<longrightarrow> entryId e = gid \<and> createdAt e = now)
   \<and> (entryId d \<noteq> [] \<and> createdAt d \<noteq> [] \<and> handleSave (Some d) gid now st = (st', Some e) \<longrightarrow>
        entryId e = entryId d \<and> createdAt e = createdAt d)
   \<and> (gid \<noteq> [] \<and> now \<noteq> [] \<and> handleSave initialData gid now st = (st', Some e) \<longrightarrow>
        entryId e \<noteq> [] \<and> createdAt e \<noteq> [])
   \<and> (entryId d \<noteq> [] \<and> createdAt d \<noteq> [] \<and> d \<in> set store \<and> distinct (map entryId store) \<longrightarrow>
        map createdAt (snd (saveToStore (Some d) gid now st store)) = map createdAt store)
   \<and> (gid \<notin> set (map entryId store) \<longrightarrow>
        snd (saveToStore None gid now st store) = store
        \<or> (\<exists>e'. snd (saveToStore None gid now st store) = e' # store
                  \<and> entryId e' = gid \<and> createdAt e' = now))"
proof -
  have create: "entryId e = gid \<and> createdAt e = now"
    if "handleSave None gid now st = (st', Some e)"
    using edit_save_entry(2,3) [OF that] by simp
  have edit: "entryId e = entryId d \<and> createdAt e = createdAt d"
    if "entryId d \<noteq> [] \<and> createdAt d \<noteq> [] \<and> handleSave (Some d) gid now st = (st', Some e)"
    using edit_save_entry(2,3) [of "Some d" gid now st st' e] that by simp
  have built: "entryId e \<noteq> [] \<and> createdAt e \<noteq> []"
    if "gid \<noteq> [] \<and> now \<noteq> [] \<and> handleSave initialData gid now st = (st', Some e)"
    using edit_save_entry(2,3) [of initialData gid now st st' e] that
    by (cases initialData) auto
  have stored: "map createdAt (snd (saveToStore (Some d) gid now st store)) = map createdAt store"
    if a: "entryId d \<noteq> [] \<and> createdAt d \<noteq> [] \<and> d \<in> set store \<and> distinct (map entryId store)"
  proof (cases "snd (handleSave (Some d) gid now st)")
    case None
    then show ?thesis
      by (cases "handleSave (Some d) gid now st") (simp add: saveToStore_def)
  next
    case (Some e')
    then obtain s' where hs: "handleSave (Some d) gid now st = (s', Some e')"
      by (cases "handleSave (Some d) gid now st") simp
    from a obtain i where i: "i < length store" "store ! i = d"
      by (auto simp: in_set_conv_nth)
    have c: "createdAt e' = createdAt d"
      using edit_save_entry(3) [OF hs] a by simp
    have "snd (saveToStore (Some d) gid now st store) = store[i := e']"
      using edit_save_store [of store i gid now st s' e'] hs i a by simp
    then have "map createdAt (snd (saveToStore (Some d) gid now st store))
                 = (map createdAt store)[i := createdAt d]"
      using c by (simp add: map_update)
    also have "\<dots> = map createdAt store"
      using i by (metis list_update_id nth_map)
    finally show ?thesis .
  qed
  have fresh: "snd (saveToStore None gid now st store) = store
        \<or> (\<exists>e'. snd (saveToStore None gid now st store) = e' # store
                  \<and> entryId e' = gid \<and> createdAt e' = now)"
    if "gid \<notin> set (map entryId store)"
    using that by (rule create_save_store)
  from create edit built stored fresh show ?thesis by blast
qed



theorem save_validation_amended_witness:
  "js_trim (prompt_st editor0) \<noteq> []
   \<and> truthy_opt (beforeImage_st editor0)
   \<and> (\<exists>e. handleSave None ''id1'' ''2024-05-01T10:00:00.000Z'' editor0 = (editor0, Some e)
          \<and> tags e = [''a'', ''b'', ''c'']
          \<and> map key (parameters e) = [''steps''])
   \<and> js_trim (prompt_st (editor0\<lparr>prompt_st := ''  ''\<rparr>)) = []
   \<and> snd (handleSave None ''id1'' ''2024-05-01T10:00:00.000Z'' (editor0\<lparr>prompt_st := ''  ''\<rparr>)) = None
   \<and> saveToStore None ''id1'' ''2024-05-01T10:00:00.000Z'' (editor0\<lparr>prompt_st := ''  ''\<rparr>) [entry1]
       = (fst (handleSave None ''id1'' ''2024-05-01T10:00:00.000Z'' (editor0\<lparr>prompt_st := ''  ''\<rparr>)),
          [entry1])
   \<and> \<not> truthy_opt (beforeImage_st (editor0\<lparr>beforeImage_st := None\<rparr>))
   \<and> \<not> truthy_opt (afterImage_st (editor0\<lparr>beforeImage_st := None\<rparr>))
   \<and> image_err (errors_st (fst (handleSave None ''id1'' ''2024-05-01T10:00:00.000Z''
                                    (editor0\<lparr>beforeImage_st := None\<rparr>))))
       = Some ''At least one image (Before or After) is required.''"
proof -
  let ?blank = "editor0\<lparr>prompt_st := ''  ''\<rparr>"
  let ?noimg = "editor0\<lparr>beforeImage_st := None\<rparr>"
  have h1: "js_trim (prompt_st editor0) \<noteq> []" and h2: "truthy_opt (beforeImage_st editor0)"
    by (simp_all add: editor0_def js_trim_def is_ws_def truthy_str_def)
  have h: "js_trim (prompt_st editor0) \<noteq> []
           \<and> (truthy_opt (beforeImage_st editor0) \<or> truthy_opt (afterImage_st editor0))"
    using h1 h2 by simp
  have g: "js_trim (prompt_st ?blank) = []"
    by (simp add: js_trim_def is_ws_def)
  have n1: "\<not> truthy_opt (beforeImage_st ?noimg)" and n2: "\<not> truthy_opt (afterImage_st ?noimg)"
    by (simp_all add: editor0_def)
  have n: "js_trim (prompt_st ?noimg) \<noteq> [] \<and> \<not> truthy_opt (beforeImage_st ?noimg)
           \<and> \<not> truthy_opt (afterImage_st ?noimg)"
    using h1 n1 n2 by simp
  have t: "js_trim (tagInput_st editor0) = ''c''" "tags_st editor0 = [''a'', ''b'']"
    "filter (\<lambda>p. js_trim (key p) \<noteq> []) (parameters_st editor0)
       = [\<lparr>paramId = ''p1'', key = ''steps'', pvalue = ''20''\<rparr>]"
    by (simp_all add: editor0_def js_trim_def is_ws_def)
  from save_validation_amended [of editor0 None "''id1''" "''2024-05-01T10:00:00.000Z''",
         THEN conjunct2, THEN conjunct2, THEN conjunct1, THEN mp, OF h]
  have c1: "\<exists>e. handleSave None ''id1'' ''2024-05-01T10:00:00.000Z'' editor0 = (editor0, Some e)
          \<and> tags e = [''a'', ''b'', ''c'']
          \<and> map key (parameters e) = [''steps'']"
    unfolding t by auto
  have c2: "snd (handleSave None ''id1'' ''2024-05-01T10:00:00.000Z'' ?blank) = None"
    using save_validation_amended [of ?blank None "''id1''" "''2024-05-01T10:00:00.000Z''",
         THEN conjunct1, THEN mp, OF g]
    by (rule conjunct1)
  have c3: "saveToStore None ''id1'' ''2024-05-01T10:00:00.000Z'' ?blank [entry1]
       = (fst (handleSave None ''id1'' ''2024-05-01T10:00:00.000Z'' ?blank), [entry1])"
    using save_validation_amended [of ?blank None "''id1''" "''2024-05-01T10:00:00.000Z''",
         THEN conjunct2, THEN conjunct2, THEN conjunct2, THEN mp, OF c2]
    by (rule conjunct2)
  have c4: "image_err (errors_st (fst (handleSave None ''id1'' ''2024-05-01T10:00:00.000Z'' ?noimg)))
       = Some ''At least one image (Before or After) is required.''"
    using save_validation_amended [of ?noimg None "''id1''" "''2024-05-01T10:00:00.000Z''",
         THEN conjunct2, THEN conjunct1, THEN mp, OF n]
    by blast
  show ?thesis
    by (intro conjI) (fact h1 h2 c1 g c2 c3 n1 n2 c4)+
qed

theorem edit_save_createdAt_amended_witness:
  "entryId entry1 \<noteq> [] \<and> createdAt entry1 \<noteq> []
   \<and> entry1 \<in> set [entry0 ''b'' ''y'' [] ''2024-02-02T00:00:00.000Z'', entry1]
   \<and> distinct (map entryId [entry0 ''b'' ''y'' [] ''2024-02-02T00:00:00.000Z'', entry1])
   \<and> map createdAt (snd (saveToStore (Some entry1) ''id1'' ''2024-05-01T10:00:00.000Z'' editor0
          [entry0 ''b'' ''y'' [] ''2024-02-02T00:00:00.000Z'', entry1]))
       = [''2024-02-02T00:00:00.000Z'', ''2024-01-01T00:00:00.000Z'']
   \<and> (\<exists>e. handleSave (Some entry1) ''id1'' ''2024-05-01T10:00:00.000Z'' editor0 = (editor0, Some e)
          \<and> entryId e = ''k3x9'' \<and> createdAt e = ''2024-01-01T00:00:00.000Z'')
   \<and> (\<exists>e. handleSave None ''id1'' ''2024-05-01T10:00:00.000Z'' editor0 = (editor0, Some e)
          \<and> entryId e = ''id1'' \<and> createdAt e = ''2024-05-01T10:00:00.000Z''
          \<and> entryId e \<noteq> [] \<and> createdAt e \<noteq> [])
   \<and> ''id1'' \<notin> set (map entryId [entry0 ''b'' ''y'' [] ''2024-02-02T00:00:00.000Z'', entry1])
   \<and> map createdAt (snd (saveToStore None ''id1'' ''2024-05-01T10:00:00.000Z'' editor0
          [entry0 ''b'' ''y'' [] ''2024-02-02T00:00:00.000Z'', entry1]))
       = [''2024-05-01T10:00:00.000Z'', ''2024-02-02T00:00:00.000Z'', ''2024-01-01T00:00:00.000Z'']"
proof -
  let ?store = "[entry0 ''b'' ''y'' [] ''2024-02-02T00:00:00.000Z'', entry1]"
  let ?gid = "''id1''" and ?now = "''2024-05-01T10:00:00.000Z''"
  have w1: "entryId entry1 \<noteq> []" and w2: "createdAt entry1 \<noteq> []"
    by (simp_all add: entry1_def)
  have w3: "entry1 \<in> set ?store" by simp
  have w4: "distinct (map entryId ?store)"
    by (simp add: entry0_def entry1_def)
  have w5: "?gid \<notin> set (map entryId ?store)"
    by (simp add: entry0_def entry1_def)
  have sc: "map createdAt ?store = [''2024-02-02T00:00:00.000Z'', ''2024-01-01T00:00:00.000Z'']"
    by (simp add: entry0_def entry1_def)
  have h: "entryId entry1 \<noteq> [] \<and> createdAt entry1 \<noteq> [] \<and> entry1 \<in> set ?store
           \<and> distinct (map entryId ?store)"
    using w1 w2 w3 w4 by blast
  have "map createdAt (snd (saveToStore (Some entry1) ?gid ?now editor0 ?store))
          = map createdAt ?store"
    using edit_save_createdAt_amended
      [THEN conjunct2, THEN conjunct2, THEN conjunct2, THEN conjunct1, THEN mp, OF h] .
  then have c1: "map createdAt (snd (saveToStore (Some entry1) ?gid ?now editor0 ?store))
       = [''2024-02-02T00:00:00.000Z'', ''2024-01-01T00:00:00.000Z'']"
    unfolding sc .
  have ok: "js_trim (prompt_st editor0) \<noteq> []" "truthy_opt (beforeImage_st editor0)"
    by (simp_all add: editor0_def js_trim_def is_ws_def truthy_str_def)
  obtain e where e: "handleSave (Some entry1) ?gid ?now editor0 = (editor0, Some e)"
    using handleSave_accepted [of editor0 "Some entry1"] ok by blast
  have he: "entryId entry1 \<noteq> [] \<and> createdAt entry1 \<noteq> []
            \<and> handleSave (Some entry1) ?gid ?now editor0 = (editor0, Some e)"
    using w1 w2 e by blast
  have "entryId e = entryId entry1 \<and> createdAt e = createdAt entry1"
    using edit_save_createdAt_amended [THEN conjunct2, THEN conjunct1, THEN mp, OF he] .
  then have "entryId e = ''k3x9'' \<and> createdAt e = ''2024-01-01T00:00:00.000Z''"
    by (simp add: entry1_def)
  with e have c2: "\<exists>e. handleSave (Some entry1) ?gid ?now editor0 = (editor0, Some e)
          \<and> entryId e = ''k3x9'' \<and> createdAt e = ''2024-01-01T00:00:00.000Z''"
    by blast
  obtain e' where e': "handleSave None ?gid ?now editor0 = (editor0, Some e')"
    using handleSave_accepted [of editor0 None] ok by blast
  have n1: "entryId e' = ?gid \<and> createdAt e' = ?now"
    using edit_save_createdAt_amended [THEN conjunct1, THEN mp, OF e'] .
  have hb: "?gid \<noteq> [] \<and> ?now \<noteq> [] \<and> handleSave None ?gid ?now editor0 = (editor0, Some e')"
    using e' by simp
  have n2: "entryId e' \<noteq> [] \<and> createdAt e' \<noteq> []"
    using edit_save_createdAt_amended
      [THEN conjunct2, THEN conjunct2, THEN conjunct1, THEN mp, OF hb] .
  from e' n1 n2 have c3: "\<exists>e. handleSave None ?gid ?now editor0 = (editor0, Some e)
          \<and> entryId e = ?gid \<and> createdAt e = ?now \<and> entryId e \<noteq> [] \<and> createdAt e \<noteq> []"
    by blast
  have st: "snd (saveToStore None ?gid ?now editor0 ?store) = handleSavePrompt e' ?store"
    using e' by (simp add: saveToStore_def)
  have "snd (saveToStore None ?gid ?now editor0 ?store) = ?store
        \<or> (\<exists>x. snd (saveToStore None ?gid ?now editor0 ?store) = x # ?store
                  \<and> entryId x = ?gid \<and> createdAt x = ?now)"
    using edit_save_createdAt_amended
      [THEN conjunct2, THEN conjunct2, THEN conjunct2, THEN conjunct2, THEN mp, OF w5] .
  moreover have "snd (saveToStore None ?gid ?now editor0 ?store) \<noteq> ?store"
  proof -
    have "\<forall>p\<in>set ?store. \<not> entryId p = entryId e'"
      using w5 n1 by (auto simp: image_iff)
    then have "findIndex (\<lambda>p. entryId p = entryId e') ?store = - 1"
      by (rule findIndex_none)
    then have "handleSavePrompt e' ?store = e' # ?store"
      by (simp add: handleSavePrompt_def)
    then show ?thesis unfolding st by simp
  qed
  ultimately obtain x where x: "snd (saveToStore None ?gid ?now editor0 ?store) = x # ?store"
    "createdAt x = ?now"
    by blast
  have c4: "map createdAt (snd (saveToStore None ?gid ?now editor0 ?store))
       = [''2024-05-01T10:00:00.000Z'', ''2024-02-02T00:00:00.000Z'', ''2024-01-01T00:00:00.000Z'']"
    unfolding x(1) using x(2) sc by simp
  show ?thesis
    by (intro conjI) (fact w1 w2 w3 w4 c1 c2 c3 w5 c4)+
qed


section \<open>Image reattachment\<close>

lemma map_enumerate_frame:
  "(\<And>i p. h (g i p) = h p) \<Longrightarrow> map (\<lambda>(i, p). h (g i p)) (enumerate n ps) = map h ps"
  by (induction ps arbitrary: n) simp_all

lemma matchImages_as_map:
  "matchImagesToPrompts prompts imageMap =
     map (\<lambda>(index, p).
            p\<lparr>beforeImage := fst (fold (matchStep (index + 1)) imageMap (beforeImage p, afterImage p)),
              afterImage := snd (fold (matchStep (index + 1)) imageMap (beforeImage p, afterImage p))\<rparr>)
         (enumerate 0 prompts)"
  unfolding matchImagesToPrompts_def Let_def
  by (rule map_cong [OF refl]) (simp add: case_prod_beta)

lemma matchImages_frame:
  assumes "\<And>p b a. h (p\<lparr>beforeImage := b, afterImage := a\<rparr>) = h p"
  shows "map h (matchImagesToPrompts prompts imageMap) = map h prompts"
proof -
  have "map h (matchImagesToPrompts prompts imageMap) =
    map (\<lambda>(index, p). h (p\<lparr>beforeImage := fst (fold (matchStep (index + 1)) imageMap (beforeImage p, afterImage p)),
              afterImage := snd (fold (matchStep (index + 1)) imageMap (beforeImage p, afterImage p))\<rparr>))
     (enumerate 0 prompts)"
    unfolding matchImages_as_map by (simp add: case_prod_beta comp_def)
  also have "\<dots> = map h prompts"
    by (rule map_enumerate_frame) (rule assms)
  finally show ?thesis .
qed

text \<open>
  C10. Reattachment returns a list of the same length whose entries, in the same order,
  have the id, prompt, model, parameters, tags, creation date and favorite flag of the
  input entries: with both images blanked out, output and input are the same list.
\<close>

theorem matchImages_changes_images_only:
  "length (matchImagesToPrompts prompts imageMap) = length prompts
   \<and> map entryId (matchImagesToPrompts prompts imageMap) = map entryId prompts
   \<and> map prompt (matchImagesToPrompts prompts imageMap) = map prompt prompts
   \<and> map model (matchImagesToPrompts prompts imageMap) = map model prompts
   \<and> map parameters (matchImagesToPrompts prompts imageMap) = map parameters prompts
   \<and> map tags (matchImagesToPrompts prompts imageMap) = map tags prompts
   \<and> map createdAt (matchImagesToPrompts prompts imageMap) = map createdAt prompts
   \<and> map isFavorite (matchImagesToPrompts prompts imageMap) = map isFavorite prompts
   \<and> map (\<lambda>p. p\<lparr>beforeImage := None, afterImage := None\<rparr>) (matchImagesToPrompts prompts imageMap)
       = map (\<lambda>p. p\<lparr>beforeImage := None, afterImage := None\<rparr>) prompts"
proof -
  have "length (matchImagesToPrompts prompts imageMap) = length prompts"
    by (simp add: matchImagesToPrompts_def)
  moreover have "map entryId (matchImagesToPrompts prompts imageMap) = map entryId prompts"
    by (rule matchImages_frame) simp
  moreover have "map prompt (matchImagesToPrompts prompts imageMap) = map prompt prompts"
    by (rule matchImages_frame) simp
  moreover have "map model (matchImagesToPrompts prompts imageMap) = map model prompts"
    by (rule matchImages_frame) simp
  moreover have "map parameters (matchImagesToPrompts prompts imageMap) = map parameters prompts"
    by (rule matchImages_frame) simp
  moreover have "map tags (matchImagesToPrompts prompts imageMap) = map tags prompts"
    by (rule matchImages_frame) simp
  moreover have "map createdAt (matchImagesToPrompts prompts imageMap) = map createdAt prompts"
    by (rule matchImages_frame) simp
  moreover have "map isFavorite (matchImagesToPrompts prompts imageMap) = map isFavorite prompts"
    by (rule matchImages_frame) simp
  moreover have "map (\<lambda>p. p\<lparr>beforeImage := None, afterImage := None\<rparr>) (matchImagesToPrompts prompts imageMap)
       = map (\<lambda>p. p\<lparr>beforeImage := None, afterImage := None\<rparr>) prompts"
    by (rule matchImages_frame) simp
  ultimately show ?thesis by blast
qed

lemma matchStep_slot:
  "matchStep n (f, d) (b, a) =
     (if slot_of f = Some (n, ''before'') then (Some d, a)
      else if slot_of f = Some (n, ''after'') then (b, Some d)
      else (b, a))"
  by (auto simp: matchStep_def slot_of_def Let_def split: option.splits)

lemma last_match_snoc:
  "last_match n kind (xs @ [(f, d)]) =
     (if slot_of f = Some (n, kind) then Some d else last_match n kind xs)"
  by (simp add: last_match_def Let_def)

lemma fold_matchStep:
  "fold (matchStep n) imageMap (b, a) =
     (case last_match n ''before'' imageMap of None \<Rightarrow> b | Some d \<Rightarrow> Some d,
      case last_match n ''after'' imageMap of None \<Rightarrow> a | Some d \<Rightarrow> Some d)"
proof (induction imageMap rule: rev_induct)
  case Nil
  show ?case by (simp add: last_match_def)
next
  case (snoc x xs)
  obtain f d where x: "x = (f, d)" by (cases x)
  show ?case
    unfolding x fold_append comp_def fold_simps snoc.IH matchStep_slot last_match_snoc
    by simp
qed

lemma toLowerCase_length: "length (toLowerCase w) = length w"
  by (simp add: toLowerCase_def)

lemma match_filename_pattern:
  assumes "ds \<noteq> []" "\<forall>c\<in>set ds. is_digit c"
    and "toLowerCase w = ''before'' \<or> toLowerCase w = ''after''"
  shows "match_filename (ds @ ''_'' @ w @ ''.'' @ ext) = Some (ds, w)"
proof -
  have nd: "\<not> is_digit CHR ''_''" by (simp add: is_digit_def)
  have tw: "takeWhile is_digit (ds @ ''_'' @ w @ ''.'' @ ext) = ds"
    using assms(2) nd by (simp add: takeWhile_append2)
  have dw: "dropWhile is_digit (ds @ ''_'' @ w @ ''.'' @ ext) = ''_'' @ w @ ''.'' @ ext"
    using assms(2) nd by (simp add: dropWhile_append2)
  from assms(3) show ?thesis
  proof
    assume b: "toLowerCase w = ''before''"
    then have "length w = 6" using toLowerCase_length [of w] by simp
    then show ?thesis
      unfolding match_filename_def tw dw Let_def using assms(1) b by simp
  next
    assume a: "toLowerCase w = ''after''"
    then have l: "length w = 5" using toLowerCase_length [of w] by simp
    then have "take 6 (w @ ''.'' @ ext) = w @ ''.''" by simp
    then have "toLowerCase (take 6 (w @ ''.'' @ ext)) \<noteq> ''before''"
      using a by (simp add: toLowerCase_def)
    then show ?thesis
      unfolding match_filename_def tw dw Let_def using assms(1) a l by simp
  qed
qed

lemma take1_eq: "take 1 xs = [c] \<Longrightarrow> xs = c # tl xs"
  by (cases xs) simp_all

lemma match_filename_shape:
  assumes "match_filename f = Some (ds, w)"
  shows "\<exists>ext. f = ds @ ''_'' @ w @ ''.'' @ ext \<and> ds \<noteq> [] \<and> (\<forall>c\<in>set ds. is_digit c)
           \<and> (toLowerCase w = ''before'' \<or> toLowerCase w = ''after'')"
proof -
  let ?ds = "takeWhile is_digit f" and ?rest = "dropWhile is_digit f"
  have f: "f = ?ds @ ?rest" by simp
  have dig: "\<forall>c\<in>set ?ds. is_digit c" by (auto dest: set_takeWhileD)
  have ne: "?ds \<noteq> []"
  proof
    assume e: "?ds = []"
    have "match_filename f = None" unfolding match_filename_def Let_def e by simp
    with assms show False by simp
  qed
  obtain c r where cr: "?rest = c # r"
  proof (cases ?rest)
    case Nil
    have "match_filename f = None" unfolding match_filename_def Let_def Nil by simp
    with assms show ?thesis by simp
  next
    case (Cons c r)
    then show ?thesis by (rule that)
  qed
  have c: "c = CHR ''_''"
  proof (rule ccontr)
    assume "c \<noteq> CHR ''_''"
    then have "match_filename f = None" unfolding match_filename_def Let_def cr by simp
    with assms show False by simp
  qed
  have r: "?ds \<noteq> []" "?rest = CHR ''_'' # r" using ne cr c by simp_all
  define A where "A \<longleftrightarrow> toLowerCase (take 6 r) = ''before'' \<and> take 1 (drop 6 r) = ''.''"
  define B where "B \<longleftrightarrow> toLowerCase (take 5 r) = ''after'' \<and> take 1 (drop 5 r) = ''.''"
  have m: "match_filename f =
             (if A then Some (?ds, take 6 r) else if B then Some (?ds, take 5 r) else None)"
    unfolding match_filename_def Let_def A_def B_def r(2) using r(1) by simp
  have "(A \<and> ds = ?ds \<and> w = take 6 r) \<or> (B \<and> ds = ?ds \<and> w = take 5 r)"
    using assms unfolding m by (cases A; cases B) auto
  then consider
      (before) "toLowerCase (take 6 r) = ''before''" "take 1 (drop 6 r) = ''.''" "ds = ?ds" "w = take 6 r"
    | (after) "toLowerCase (take 5 r) = ''after''" "take 1 (drop 5 r) = ''.''" "ds = ?ds" "w = take 5 r"
    unfolding A_def B_def by blast
  then show ?thesis
  proof cases
    case before
    have "r = take 6 r @ drop 6 r" by simp
    also have "drop 6 r = CHR ''.'' # tl (drop 6 r)" using before(2) by (rule take1_eq)
    finally have "r = w @ ''.'' @ tl (drop 6 r)" using before(4) by simp
    with f r before dig show ?thesis by (metis append_Cons append_Nil)
  next
    case after
    have "r = take 5 r @ drop 5 r" by simp
    also have "drop 5 r = CHR ''.'' # tl (drop 5 r)" using after(2) by (rule take1_eq)
    finally have "r = w @ ''.'' @ tl (drop 5 r)" using after(4) by simp
    with f r after dig show ?thesis by (metis append_Cons append_Nil)
  qed
qed

lemma slot_of_iff:
  "slot_of f = Some (n, kind) \<longleftrightarrow>
     (\<exists>ds w ext. f = ds @ ''_'' @ w @ ''.'' @ ext \<and> ds \<noteq> [] \<and> (\<forall>c\<in>set ds. is_digit c)
        \<and> parseInt ds = n \<and> toLowerCase w = kind \<and> (kind = ''before'' \<or> kind = ''after''))"
proof
  assume "slot_of f = Some (n, kind)"
  then obtain ds w where m: "match_filename f = Some (ds, w)" "parseInt ds = n" "toLowerCase w = kind"
    by (auto simp: slot_of_def split: option.splits)
  from match_filename_shape [OF m(1)] m(2,3)
  show "\<exists>ds w ext. f = ds @ ''_'' @ w @ ''.'' @ ext \<and> ds \<noteq> [] \<and> (\<forall>c\<in>set ds. is_digit c)
        \<and> parseInt ds = n \<and> toLowerCase w = kind \<and> (kind = ''before'' \<or> kind = ''after'')"
    by blast
next
  assume "\<exists>ds w ext. f = ds @ ''_'' @ w @ ''.'' @ ext \<and> ds \<noteq> [] \<and> (\<forall>c\<in>set ds. is_digit c)
        \<and> parseInt ds = n \<and> toLowerCase w = kind \<and> (kind = ''before'' \<or> kind = ''after'')"
  then obtain ds w ext where a: "f = ds @ ''_'' @ w @ ''.'' @ ext" "ds \<noteq> []" "\<forall>c\<in>set ds. is_digit c"
    "parseInt ds = n" "toLowerCase w = kind" "kind = ''before'' \<or> kind = ''after''"
    by blast
  have "match_filename f = Some (ds, w)"
    unfolding a(1) using a(2,3,5,6) by (intro match_filename_pattern) auto
  then show "slot_of f = Some (n, kind)"
    using a(4,5) by (simp add: slot_of_def)
qed


text \<open>
  C7, as stated, fails when two files of the map address the same position and kind: with
  the files 2_Before.png and 2_before.jpg, in this order, the entry at position 2 gets the
  data of the second file, so the file named 2_Before.png does not become its
  before-image.
\<close>

theorem matchImages_collision_counterexample:
  "beforeImage (matchImagesToPrompts
      [entry0 ''a'' ''x'' [] ''t1'', entry0 ''b'' ''y'' [] ''t2'']
      [(''2_Before.png'', ''X''), (''2_before.jpg'', ''Y'')] ! 1) = Some ''Y''
   \<and> beforeImage (matchImagesToPrompts
      [entry0 ''a'' ''x'' [] ''t1'', entry0 ''b'' ''y'' [] ''t2'']
      [(''2_Before.png'', ''X''), (''2_before.jpg'', ''Y'')] ! 1) \<noteq> Some ''X''"
  by code_simp

text \<open>
  C7, amended. A file name addresses the slot \<open>(n, kind)\<close> exactly when it is a non-empty
  run of digits with the value \<open>n\<close>, an underscore, the word Before or After in any letter
  case (\<open>kind\<close> is the word in lower case), a dot and any rest. For the entry at the
  1-based position \<open>i + 1\<close>, the before-image after reattachment is the data of the last
  file of the map, in the map's order, that addresses \<open>(i + 1, before)\<close>, and the image
  the entry had when no file does; likewise for the after-image. So 2_Before.png becomes
  the before-image of position 2 when no later file addresses the same slot, the
  after-image of position 2 is untouched when no file addresses \<open>(2, after)\<close>, and an
  entry that no file addresses keeps both images.
\<close>

theorem matchImages_last_file_wins:
  "(slot_of f = Some (n, kind) \<longleftrightarrow>
      (\<exists>ds w ext. f = ds @ ''_'' @ w @ ''.'' @ ext \<and> ds \<noteq> [] \<and> (\<forall>c\<in>set ds. is_digit c)
         \<and> parseInt ds = n \<and> toLowerCase w = kind \<and> (kind = ''before'' \<or> kind = ''after'')))
   \<and> (i < length prompts \<longrightarrow>
        beforeImage (matchImagesToPrompts prompts imageMap ! i) =
           (case last_match (i + 1) ''before'' imageMap of
              None \<Rightarrow> beforeImage (prompts ! i) | Some d \<Rightarrow> Some d)
        \<and> afterImage (matchImagesToPrompts prompts imageMap ! i) =
           (case last_match (i + 1) ''after'' imageMap of
              None \<Rightarrow> afterImage (prompts ! i) | Some d \<Rightarrow> Some d))"
proof -
  have "beforeImage (matchImagesToPrompts prompts imageMap ! i) =
           (case last_match (i + 1) ''before'' imageMap of
              None \<Rightarrow> beforeImage (prompts ! i) | Some d \<Rightarrow> Some d)
        \<and> afterImage (matchImagesToPrompts prompts imageMap ! i) =
           (case last_match (i + 1) ''after'' imageMap of
              None \<Rightarrow> afterImage (prompts ! i) | Some d \<Rightarrow> Some d)"
    if "i < length prompts"
    unfolding matchImages_as_map using that
    by (simp add: nth_enumerate_eq fold_matchStep)
  with slot_of_iff [of f n kind] show ?thesis by blast
qed

theorem matchImages_last_file_wins_witness:
  "1 < length [entry0 ''a'' ''x'' [] ''t1'', entry0 ''b'' ''y'' [] ''t2'']
   \<and> slot_of ''2_Before.png'' = Some (2, ''before'')
   \<and> beforeImage (matchImagesToPrompts
        [entry0 ''a'' ''x'' [] ''t1'', entry0 ''b'' ''y'' [] ''t2'']
        [(''2_Before.png'', ''X''), (''1_AFTER.jpeg'', ''Z''), (''notes.txt'', ''N'')] ! 1) = Some ''X''
   \<and> afterImage (matchImagesToPrompts
        [entry0 ''a'' ''x'' [] ''t1'', entry0 ''b'' ''y'' [] ''t2'']
        [(''2_Before.png'', ''X''), (''1_AFTER.jpeg'', ''Z''), (''notes.txt'', ''N'')] ! 1)
       = afterImage ([entry0 ''a'' ''x'' [] ''t1'', entry0 ''b'' ''y'' [] ''t2''] ! 1)"
proof -
  let ?ps = "[entry0 ''a'' ''x'' [] ''t1'', entry0 ''b'' ''y'' [] ''t2'']"
  let ?m = "[(''2_Before.png'', ''X''), (''1_AFTER.jpeg'', ''Z''), (''notes.txt'', ''N'')]"
  have h: "1 < length ?ps" by simp
  have s: "slot_of ''2_Before.png'' = Some (2, ''before'')" by code_simp
  have l: "last_match (1 + 1) ''before'' ?m = Some ''X''" "last_match (1 + 1) ''after'' ?m = None"
    by code_simp+
  from matchImages_last_file_wins [THEN conjunct2, THEN mp, OF h, of ?m]
  have "beforeImage (matchImagesToPrompts ?ps ?m ! 1) = Some ''X''
        \<and> afterImage (matchImagesToPrompts ?ps ?m ! 1) = afterImage (?ps ! 1)"
    unfolding l by simp
  with h s show ?thesis by blast
qed


section \<open>The filtered view: filter, then stable sort by creation time\<close>

lemma mset_js_sort_insert: "mset (js_sort_insert cmp x ys) = add_mset x (mset ys)"
  by (induction ys) simp_all

lemma mset_js_sort: "mset (js_sort cmp xs) = mset xs"
  by (induction xs) (simp_all add: mset_js_sort_insert)

lemma compare_valid:
  assumes "getTime (createdAt a) \<noteq> None" "getTime (createdAt b) \<noteq> None"
  shows "compareCreatedAt getTime a b = timeOf getTime b - timeOf getTime a"
  using assms by (auto simp: compareCreatedAt_def timeOf_def)

lemma js_sort_insert_valid:
  assumes "getTime (createdAt x) \<noteq> None" "\<forall>p\<in>set ys. getTime (createdAt p) \<noteq> None"
  shows "js_sort_insert (compareCreatedAt getTime) x ys
           = insort_key (\<lambda>p. - timeOf getTime p) x ys"
  using assms by (induction ys) (simp_all add: compare_valid)

lemma js_sort_valid:
  assumes "\<forall>p\<in>set xs. getTime (createdAt p) \<noteq> None"
  shows "js_sort (compareCreatedAt getTime) xs = sort_key (\<lambda>p. - timeOf getTime p) xs"
  using assms
proof (induction xs)
  case Nil
  show ?case by simp
next
  case (Cons x xs)
  then have ih: "js_sort (compareCreatedAt getTime) xs = sort_key (\<lambda>p. - timeOf getTime p) xs"
    by simp
  have "\<forall>p\<in>set (sort_key (\<lambda>p. - timeOf getTime p) xs). getTime (createdAt p) \<noteq> None"
    using Cons.prems by simp
  then show ?case
    using Cons.prems by (simp add: ih js_sort_insert_valid)
qed

lemma zip_map_same: "zip (map f xs) (map g xs) = map (\<lambda>x. (f x, g x)) xs"
  by (induction xs) simp_all

lemma capital_codes:
  "capital_letters = map char_of ([65..<91] @ [192..<215] @ [216..<223] :: nat list)"
  by code_simp

lemma small_codes:
  "small_letters = map (\<lambda>n. char_of (n + 32)) ([65..<91] @ [192..<215] @ [216..<223] :: nat list)"
  by code_simp

lemma char_eq_code: "(n::nat) < 256 \<Longrightarrow> (c = char_of n) \<longleftrightarrow> (of_char c = n)"
proof
  assume "n < 256" "c = char_of n"
  then show "of_char c = n" by simp
next
  assume "of_char c = n"
  then have "char_of (of_char c :: nat) = (char_of n :: char)" by simp
  then show "c = char_of n" by simp
qed

lemma letter_pair_iff:
  "(a, b) \<in> set (zip capital_letters small_letters) \<longleftrightarrow>
     ((65 \<le> (of_char a :: nat) \<and> (of_char a :: nat) \<le> 90)
        \<or> (192 \<le> (of_char a :: nat) \<and> (of_char a :: nat) \<le> 222 \<and> (of_char a :: nat) \<noteq> 215))
     \<and> (of_char b :: nat) = of_char a + 32"
proof -
  let ?codes = "[65..<91] @ [192..<215] @ [216..<223] :: nat list"
  have sc: "set ?codes = {n. (65 \<le> n \<and> n \<le> 90) \<or> (192 \<le> n \<and> n \<le> 222 \<and> n \<noteq> 215)}"
    by (simp only: set_append set_upt) auto
  have z: "zip capital_letters small_letters = map (\<lambda>n. (char_of n, char_of (n + 32))) ?codes"
    unfolding capital_codes small_codes by (rule zip_map_same)
  have "(a, b) \<in> set (zip capital_letters small_letters)
          \<longleftrightarrow> (\<exists>n\<in>set ?codes. a = char_of n \<and> b = char_of (n + 32))"
    unfolding z set_map by blast
  also have "\<dots> \<longleftrightarrow> (\<exists>n\<in>set ?codes. (of_char a :: nat) = n \<and> (of_char b :: nat) = n + 32)"
  proof (intro bex_cong refl)
    fix n :: nat assume "n \<in> set ?codes"
    then have "n < 256" "n + 32 < 256" unfolding sc by auto
    then show "(a = char_of n \<and> b = char_of (n + 32)) \<longleftrightarrow> ((of_char a :: nat) = n \<and> (of_char b :: nat) = n + 32)"
      by (simp only: char_eq_code)
  qed
  also have "\<dots> \<longleftrightarrow> (of_char a :: nat) \<in> set ?codes \<and> (of_char b :: nat) = of_char a + 32"
    by blast
  finally show ?thesis
    unfolding sc by simp
qed

lemma toLowerCase_char_code:
  "(of_char (toLowerCase_char c) :: nat) =
     (if (65 \<le> (of_char c :: nat) \<and> (of_char c :: nat) \<le> 90)
         \<or> (192 \<le> (of_char c :: nat) \<and> (of_char c :: nat) \<le> 222 \<and> (of_char c :: nat) \<noteq> 215)
      then of_char c + 32 else of_char c)"
  by (auto simp: toLowerCase_char_def Let_def)

lemma same_letter_toLowerCase:
  "same_letter a b \<longleftrightarrow> toLowerCase_char a = toLowerCase_char b"
proof -
  have "toLowerCase_char a = toLowerCase_char b
          \<longleftrightarrow> (of_char (toLowerCase_char a) :: nat) = of_char (toLowerCase_char b)"
    by simp
  also have "\<dots> \<longleftrightarrow> same_letter a b"
  proof -
    have ab: "a = b \<longleftrightarrow> (of_char a :: nat) = of_char b" by simp
    show ?thesis
      unfolding same_letter_def letter_pair_iff toLowerCase_char_code ab
      by presburger
  qed
  finally show ?thesis by simp
qed

lemma ci_prefix_toLowerCase:
  "ci_prefix xs ys \<longleftrightarrow> prefix (toLowerCase xs) (toLowerCase ys)"
  by (induction xs ys rule: ci_prefix.induct)
     (simp_all add: toLowerCase_def same_letter_toLowerCase)

lemma ci_substring_toLowerCase:
  "ci_substring needle s \<longleftrightarrow> sublist (toLowerCase needle) (toLowerCase s)"
proof (induction s)
  case Nil
  show ?case by (simp add: toLowerCase_def)
next
  case (Cons c cs)
  have "sublist (toLowerCase needle) (toLowerCase (c # cs))
          \<longleftrightarrow> prefix (toLowerCase needle) (toLowerCase (c # cs))
               \<or> sublist (toLowerCase needle) (toLowerCase cs)"
    by (simp add: toLowerCase_def sublist_Cons_right)
  then show ?case
    using Cons.IH ci_prefix_toLowerCase [of needle "c # cs"] by simp
qed

lemma ci_substring_empty: "ci_substring [] s"
  by (induction s) simp_all

lemma ci_substring_in_empty: "ci_substring needle [] \<Longrightarrow> ci_substring needle s"
  by (simp add: ci_substring_empty)

lemma matchesFilter_spec:
  "matchesFilter searchTerm selectedTags v p = spec_passes searchTerm selectedTags v p"
proof -
  have view: "(v = ViewFavorites \<and> \<not> truthy_bool (isFavorite p)) \<longleftrightarrow> \<not> spec_view_ok v p"
    by (cases "isFavorite p") (auto simp: spec_view_ok_def)
  have model: "(case model p of None \<Rightarrow> False
                | Some m \<Rightarrow> truthy_str m \<and> js_includes (toLowerCase m) (toLowerCase searchTerm))
               \<or> ci_substring searchTerm (prompt p)
             \<longleftrightarrow> (case model p of None \<Rightarrow> False | Some m \<Rightarrow> ci_substring searchTerm m)
               \<or> ci_substring searchTerm (prompt p)"
    using ci_substring_in_empty [of searchTerm "prompt p"]
    by (cases "model p") (auto simp: truthy_str_def js_includes_def ci_substring_toLowerCase)
  have tagsm: "(\<exists>t\<in>set (tags p). js_includes (toLowerCase t) (toLowerCase searchTerm))
               \<longleftrightarrow> (\<exists>t\<in>set (tags p). ci_substring searchTerm t)"
    by (simp add: js_includes_def ci_substring_toLowerCase)
  have sel: "(selectedTags = {} \<or> (\<exists>t\<in>set (tags p). t \<in> selectedTags)) \<longleftrightarrow> spec_tags_ok selectedTags p"
    by (auto simp: spec_tags_ok_def)
  have prm: "js_includes (toLowerCase (prompt p)) (toLowerCase searchTerm) \<longleftrightarrow> ci_substring searchTerm (prompt p)"
    by (simp add: js_includes_def ci_substring_toLowerCase)
  show ?thesis
    unfolding matchesFilter_def Let_def spec_passes_def spec_text_ok_def
    using view model tagsm sel prm by (cases "spec_view_ok v p") auto
qed

text \<open>
  C4. An entry is in the filtered result exactly when it is in the list and passes the
  view restriction (the favorites view keeps favorites only), the text filter (the search
  term occurs, letter case aside, in the prompt, in the model if there is one, or in a
  tag) and the tag filter (no tag selected, or some tag of the entry selected); the result
  has these entries as often as the list has them; the empty search term passes the text
  filter of every entry. When every creation date in the list parses, the result is in
  descending order of creation time, and entries with the same creation time keep their
  relative order of the list.
\<close>

theorem filteredPrompts_filter_then_stable_sort:
  "(p \<in> set (filteredPrompts getTime prompts searchTerm selectedTags v)
      \<longleftrightarrow> p \<in> set prompts \<and> spec_passes searchTerm selectedTags v p)
   \<and> mset (filteredPrompts getTime prompts searchTerm selectedTags v)
       = mset (filter (spec_passes searchTerm selectedTags v) prompts)
   \<and> spec_text_ok [] p
   \<and> ((\<forall>q\<in>set prompts. getTime (createdAt q) \<noteq> None) \<longrightarrow>
        sorted_wrt (\<lambda>a b. timeOf getTime a \<ge> timeOf getTime b)
          (filteredPrompts getTime prompts searchTerm selectedTags v)
        \<and> (\<forall>k. filter (\<lambda>q. timeOf getTime q = k)
                   (filteredPrompts getTime prompts searchTerm selectedTags v)
                = filter (\<lambda>q. timeOf getTime q = k)
                   (filter (spec_passes searchTerm selectedTags v) prompts)))"
proof -
  let ?fl = "filter (spec_passes searchTerm selectedTags v) prompts"
  let ?res = "filteredPrompts getTime prompts searchTerm selectedTags v"
  have res: "?res = js_sort (compareCreatedAt getTime) ?fl"
    unfolding filteredPrompts_def by (simp add: matchesFilter_spec [abs_def])
  have ms: "mset ?res = mset ?fl"
    unfolding res by (rule mset_js_sort)
  then have "set ?res = set ?fl" by (metis set_mset_mset)
  then have mem: "p \<in> set ?res \<longleftrightarrow> p \<in> set prompts \<and> spec_passes searchTerm selectedTags v p"
    by simp
  have emp: "spec_text_ok [] p"
    by (simp add: spec_text_ok_def ci_substring_empty)
  have srt: "sorted_wrt (\<lambda>a b. timeOf getTime a \<ge> timeOf getTime b) ?res
        \<and> (\<forall>k. filter (\<lambda>q. timeOf getTime q = k) ?res = filter (\<lambda>q. timeOf getTime q = k) ?fl)"
    if valid: "\<forall>q\<in>set prompts. getTime (createdAt q) \<noteq> None"
  proof -
    from valid have "\<forall>q\<in>set ?fl. getTime (createdAt q) \<noteq> None" by simp
    then have sk: "?res = sort_key (\<lambda>q. - timeOf getTime q) ?fl"
      unfolding res by (rule js_sort_valid)
    have "sorted (map (\<lambda>q. - timeOf getTime q) ?res)"
      unfolding sk by (rule sorted_sort_key)
    then have s1: "sorted_wrt (\<lambda>a b. timeOf getTime a \<ge> timeOf getTime b) ?res"
      by (simp add: sorted_map)
    have s2: "filter (\<lambda>q. timeOf getTime q = k) ?res = filter (\<lambda>q. timeOf getTime q = k) ?fl" for k
      using sort_key_stable [of "\<lambda>q. - timeOf getTime q" "- k" ?fl] unfolding sk by simp
    from s1 s2 show ?thesis by blast
  qed
  from mem ms emp srt show ?thesis by blast
qed


theorem filteredPrompts_filter_then_stable_sort_witness:
  "getTime0 (createdAt (entry0 ''a'' ''Cat'' [''a''] ''2024-01-01T00:00:00.000Z'')) \<noteq> None
   \<and> getTime0 (createdAt (entry0 ''b'' ''dog'' [''b''] ''2024-02-02T00:00:00.000Z'')) \<noteq> None
   \<and> getTime0 (createdAt (entry0 ''c'' ''my cat 2'' [''c''] ''2024-02-02T00:00:00.000Z'')) \<noteq> None
   \<and> getTime0 (createdAt entry1) \<noteq> None
   \<and> sorted_wrt (\<lambda>a b. timeOf getTime0 a \<ge> timeOf getTime0 b)
         (filteredPrompts getTime0
            [entry0 ''a'' ''Cat'' [''a''] ''2024-01-01T00:00:00.000Z'',
             entry0 ''b'' ''dog'' [''b''] ''2024-02-02T00:00:00.000Z'',
             entry0 ''c'' ''my cat 2'' [''c''] ''2024-02-02T00:00:00.000Z'',
             entry1]
            ''cAt'' {} ViewAll)
   \<and> entry0 ''a'' ''Cat'' [''a''] ''2024-01-01T00:00:00.000Z''
        \<in> set (filteredPrompts getTime0
            [entry0 ''a'' ''Cat'' [''a''] ''2024-01-01T00:00:00.000Z'',
             entry0 ''b'' ''dog'' [''b''] ''2024-02-02T00:00:00.000Z'',
             entry0 ''c'' ''my cat 2'' [''c''] ''2024-02-02T00:00:00.000Z'',
             entry1]
            ''cAt'' {} ViewAll)
   \<and> entry0 ''b'' ''dog'' [''b''] ''2024-02-02T00:00:00.000Z''
        \<notin> set (filteredPrompts getTime0
            [entry0 ''a'' ''Cat'' [''a''] ''2024-01-01T00:00:00.000Z'',
             entry0 ''b'' ''dog'' [''b''] ''2024-02-02T00:00:00.000Z'',
             entry0 ''c'' ''my cat 2'' [''c''] ''2024-02-02T00:00:00.000Z'',
             entry1]
            ''cAt'' {} ViewAll)
   \<and> map entryId (filteredPrompts getTime0
            [entry0 ''a'' ''Cat'' [''a''] ''2024-01-01T00:00:00.000Z'',
             entry0 ''b'' ''dog'' [''b''] ''2024-02-02T00:00:00.000Z'',
             entry0 ''c'' ''my cat 2'' [''c''] ''2024-02-02T00:00:00.000Z'',
             entry1]
            ''cAt'' {} ViewAll) = [''c'', ''a'', ''k3x9'']
   \<and> map entryId (filteredPrompts getTime0
            [entry0 ''a'' ''Cat'' [''a''] ''2024-01-01T00:00:00.000Z'',
             entry0 ''b'' ''dog'' [''b''] ''2024-02-02T00:00:00.000Z'',
             entry0 ''c'' ''my cat 2'' [''c''] ''2024-02-02T00:00:00.000Z'',
             entry1]
            ''CAT'' {} ViewFavorites) = [''c'', ''a'']
   \<and> map entryId (filteredPrompts getTime0
            [entry0 ''a'' ''Cat'' [''a''] ''2024-01-01T00:00:00.000Z'',
             entry0 ''b'' ''dog'' [''b''] ''2024-02-02T00:00:00.000Z'',
             entry0 ''c'' ''my cat 2'' [''c''] ''2024-02-02T00:00:00.000Z'',
             entry1]
            [] {''a'', ''x''} ViewAll) = [''a'']"
proof -
  let ?A = "entry0 ''a'' ''Cat'' [''a''] ''2024-01-01T00:00:00.000Z''"
  let ?B = "entry0 ''b'' ''dog'' [''b''] ''2024-02-02T00:00:00.000Z''"
  let ?C = "entry0 ''c'' ''my cat 2'' [''c''] ''2024-02-02T00:00:00.000Z''"
  let ?ps = "[?A, ?B, ?C, entry1]"
  have g1: "getTime0 (createdAt ?A) \<noteq> None"
    by (simp add: entry0_def getTime0_def)
  have g2: "getTime0 (createdAt ?B) \<noteq> None"
    by (simp add: entry0_def getTime0_def)
  have g3: "getTime0 (createdAt ?C) \<noteq> None"
    by (simp add: entry0_def getTime0_def)
  have g4: "getTime0 (createdAt entry1) \<noteq> None"
    by (simp add: entry1_def getTime0_def)
  have h: "\<forall>q\<in>set ?ps. getTime0 (createdAt q) \<noteq> None"
    using g1 g2 g3 g4 by simp
  have s: "sorted_wrt (\<lambda>a b. timeOf getTime0 a \<ge> timeOf getTime0 b)
             (filteredPrompts getTime0 ?ps ''cAt'' {} ViewAll)"
    using filteredPrompts_filter_then_stable_sort
            [of _ getTime0 ?ps "''cAt''" "{}" ViewAll,
             THEN conjunct2, THEN conjunct2, THEN conjunct2, THEN mp, OF h]
    by (rule conjunct1)
  have pa: "spec_passes ''cAt'' {} ViewAll ?A" by code_simp
  have pb: "\<not> spec_passes ''cAt'' {} ViewAll ?B" by code_simp
  have ia: "?A \<in> set ?ps" by simp
  have m1: "?A \<in> set (filteredPrompts getTime0 ?ps ''cAt'' {} ViewAll)"
    using filteredPrompts_filter_then_stable_sort
            [of ?A getTime0 ?ps "''cAt''" "{}" ViewAll, THEN conjunct1] ia pa
    by blast
  have m2: "?B \<notin> set (filteredPrompts getTime0 ?ps ''cAt'' {} ViewAll)"
  proof
    assume "?B \<in> set (filteredPrompts getTime0 ?ps ''cAt'' {} ViewAll)"
    then have "?B \<in> set ?ps \<and> spec_passes ''cAt'' {} ViewAll ?B"
      by (rule filteredPrompts_filter_then_stable_sort
            [of ?B getTime0 ?ps "''cAt''" "{}" ViewAll, THEN conjunct1, THEN iffD1])
    with pb show False by (elim conjE) (erule notE)
  qed
  have e1: "map entryId (filteredPrompts getTime0 ?ps ''cAt'' {} ViewAll) = [''c'', ''a'', ''k3x9'']"
    by code_simp
  have e2: "map entryId (filteredPrompts getTime0 ?ps ''CAT'' {} ViewFavorites) = [''c'', ''a'']"
    by code_simp
  have e3: "map entryId (filteredPrompts getTime0 ?ps [] {''a'', ''x''} ViewAll) = [''a'']"
    by code_simp
  show ?thesis
    by (intro conjI) (fact g1 g2 g3 g4 s m1 m2 e1 e2 e3)+
qed

section \<open>Spreadsheet round trip\<close>

lemma js_split_not_Nil: "js_split c s \<noteq> []"
  by (induction s) (auto split: list.splits)

lemma js_split_prefix:
  "c \<notin> set p \<Longrightarrow> js_split c (p @ s) = (p @ hd (js_split c s)) # tl (js_split c s)"
proof (induction p)
  case Nil
  show ?case using js_split_not_Nil [of c s] by simp
next
  case (Cons a p)
  then show ?case by auto
qed

lemma js_split_no_sep: "c \<notin> set t \<Longrightarrow> js_split c t = [t]"
  using js_split_prefix [of c t "[]"] by simp

lemma js_split_at_sep: "c \<notin> set t \<Longrightarrow> js_split c (t @ c # s) = t # js_split c s"
  using js_split_prefix [of c t "c # s"] by simp

lemma js_split_join:
  assumes "\<forall>t\<in>set ts. c \<notin> set t" "c \<noteq> CHR '' ''" "ts \<noteq> []"
  shows "js_split c (js_join [c, CHR '' ''] ts) = hd ts # map ((#) CHR '' '') (tl ts)"
  using assms
proof (induction ts rule: induct_list012)
  case 1
  then show ?case by simp
next
  case (2 x)
  then show ?case by (simp add: js_split_no_sep)
next
  case (3 x y ys)
  then have ih: "js_split c (js_join [c, CHR '' ''] (y # ys)) = y # map ((#) CHR '' '') ys"
    by simp
  have "js_split c (js_join [c, CHR '' ''] (x # y # ys))
          = x # js_split c (CHR '' '' # js_join [c, CHR '' ''] (y # ys))"
    using 3(3) js_split_at_sep [of c x] by simp
  also have "js_split c (CHR '' '' # js_join [c, CHR '' ''] (y # ys))
          = (CHR '' '' # y) # map ((#) CHR '' '') ys"
    using js_split_prefix [of c "[CHR '' '']" "js_join [c, CHR '' ''] (y # ys)"] 3(4) ih
    by simp
  finally show ?case by simp
qed

lemma js_trim_space: "js_trim (CHR '' '' # t) = js_trim t"
  by (simp add: js_trim_def is_ws_def)

lemma js_join_truthy:
  "ts \<noteq> [] \<Longrightarrow> hd ts \<noteq> [] \<Longrightarrow> js_join sep ts \<noteq> []"
  by (induction sep ts rule: js_join.induct) simp_all

lemma parseTags_join:
  assumes "\<forall>t\<in>set ts. text_safe '','' t"
  shows "parseTags (js_join '', '' ts) = ts"
proof (cases ts)
  case Nil
  then show ?thesis by (simp add: parseTags_def truthy_str_def)
next
  case (Cons t ts')
  have safe: "\<forall>t\<in>set ts. t \<noteq> [] \<and> js_trim t = t \<and> CHR '','' \<notin> set t"
    using assms by (simp add: text_safe_def)
  have ne: "js_join '', '' ts \<noteq> []"
    using js_join_truthy [of ts] safe Cons by simp
  have sp: "js_split CHR '','' (js_join '', '' ts) = hd ts # map ((#) CHR '' '') (tl ts)"
    using js_split_join [of ts "CHR '',''"] safe Cons by simp
  have "map js_trim (hd ts # map ((#) CHR '' '') (tl ts)) = map js_trim ts"
    using Cons by (simp add: js_trim_space comp_def)
  also have "\<dots> = ts"
    using safe by (simp add: map_idI)
  finally have tr: "map js_trim (hd ts # map ((#) CHR '' '') (tl ts)) = ts" .
  have "filter truthy_str ts = ts"
    using safe by (simp add: truthy_str_def)
  moreover have "parseTags (js_join '', '' ts)
                   = filter truthy_str (map js_trim (js_split CHR '','' (js_join '', '' ts)))"
    using ne by (simp add: parseTags_def truthy_str_def)
  ultimately show ?thesis
    unfolding sp tr by simp
qed


lemma parseParameter_text:
  assumes "text_safe '':;'' (key q)" "text_safe '':;'' (pvalue q)"
  shows "parseParameter uuid (k, param_text q) = \<lparr>paramId = uuid k, key = key q, pvalue = pvalue q\<rparr>"
    and "parseParameter uuid (k, CHR '' '' # param_text q) = \<lparr>paramId = uuid k, key = key q, pvalue = pvalue q\<rparr>"
proof -
  have kq: "CHR '':'' \<notin> set (key q)" "js_trim (key q) = key q"
    and vq: "CHR '':'' \<notin> set (pvalue q)" "js_trim (pvalue q) = pvalue q"
    using assms by (simp_all add: text_safe_def)
  have s1: "js_split CHR '':'' (param_text q) = [key q, CHR '' '' # pvalue q]"
    using js_split_at_sep [of "CHR '':''" "key q" "CHR '' '' # pvalue q"]
      js_split_no_sep [of "CHR '':''" "CHR '' '' # pvalue q"] kq(1) vq(1)
    by (simp add: param_text_def)
  have s2: "js_split CHR '':'' (CHR '' '' # param_text q) = [CHR '' '' # key q, CHR '' '' # pvalue q]"
    using js_split_at_sep [of "CHR '':''" "CHR '' '' # key q" "CHR '' '' # pvalue q"]
      js_split_no_sep [of "CHR '':''" "CHR '' '' # pvalue q"] kq(1) vq(1)
    by (simp add: param_text_def)
  show "parseParameter uuid (k, param_text q) = \<lparr>paramId = uuid k, key = key q, pvalue = pvalue q\<rparr>"
    using kq(2) vq(2) by (simp add: parseParameter_def Let_def s1 nth_opt_def js_trim_space)
  show "parseParameter uuid (k, CHR '' '' # param_text q) = \<lparr>paramId = uuid k, key = key q, pvalue = pvalue q\<rparr>"
    using kq(2) vq(2)
    by (simp add: parseParameter_def Let_def s2 nth_opt_def js_trim_space del: js_split.simps)
qed

lemma parse_pieces:
  assumes "list_all2 (\<lambda>pc q. key q \<noteq> [] \<and> pvalue q \<noteq> []
              \<and> (\<forall>k. parseParameter uuid (k, pc) = \<lparr>paramId = uuid k, key = key q, pvalue = pvalue q\<rparr>))
             pieces qs"
  shows "map key_value (filter (\<lambda>p. truthy_str (key p) \<and> truthy_str (pvalue p))
           (map (parseParameter uuid) (enumerate n pieces))) = map key_value qs"
  using assms
proof (induction pieces qs arbitrary: n rule: list_all2_induct)
  case Nil
  show ?case by simp
next
  case (Cons pc pieces q qs)
  from Cons.hyps(1) have "parseParameter uuid (n, pc) = \<lparr>paramId = uuid n, key = key q, pvalue = pvalue q\<rparr>"
    and "key q \<noteq> []" "pvalue q \<noteq> []"
    by simp_all
  then show ?case
    using Cons.IH [of "Suc n"] by (simp add: truthy_str_def key_value_def)
qed

lemma param_text_clean:
  assumes "text_safe '':;'' (key q)" "text_safe '':;'' (pvalue q)"
  shows "CHR '';'' \<notin> set (param_text q)" "param_text q \<noteq> []"
  using assms by (simp_all add: text_safe_def param_text_def)

lemma parseParameters_join:
  assumes "\<forall>q\<in>set qs. text_safe '':;'' (key q) \<and> text_safe '':;'' (pvalue q)"
  shows "map key_value (fst (parseParameters uuid n (js_join ''; '' (map param_text qs)))) = map key_value qs"
proof (cases qs)
  case Nil
  then show ?thesis by (simp add: parseParameters_def truthy_str_def)
next
  case (Cons q qs')
  let ?cell = "js_join ''; '' (map param_text qs)"
  have ne: "?cell \<noteq> []"
    using js_join_truthy [of "map param_text qs" "''; ''"] Cons assms param_text_clean(2) [of q] by simp
  have nosep: "\<forall>t\<in>set (map param_text qs). CHR '';'' \<notin> set t"
    using assms param_text_clean(1) by auto
  have sp: "js_split CHR '';'' (js_join ''; '' (map param_text (q # qs')))
              = param_text q # map (\<lambda>q. CHR '' '' # param_text q) qs'"
    using js_split_join [of "map param_text qs" "CHR '';''"] nosep Cons by (simp add: comp_def)
  have safe: "key r \<noteq> [] \<and> pvalue r \<noteq> []" "text_safe '':;'' (key r)" "text_safe '':;'' (pvalue r)"
    if "r \<in> set qs" for r
    using assms that by (simp_all add: text_safe_def)
  have "list_all2 (\<lambda>pc q. key q \<noteq> [] \<and> pvalue q \<noteq> []
              \<and> (\<forall>k. parseParameter uuid (k, pc) = \<lparr>paramId = uuid k, key = key q, pvalue = pvalue q\<rparr>))
             (param_text q # map (\<lambda>q. CHR '' '' # param_text q) qs') (q # qs')"
    using safe parseParameter_text Cons
    by (simp add: list_all2_map1 list_all2_same)
  from parse_pieces [OF this, of n]
  have "map key_value (filter (\<lambda>p. truthy_str (key p) \<and> truthy_str (pvalue p))
           (map (parseParameter uuid) (enumerate n (js_split CHR '';'' ?cell)))) = map key_value qs"
    by (simp only: Cons sp)
  then show ?thesis
    using ne by (simp add: parseParameters_def truthy_str_def Let_def)
qed

lemma importRow_unfold:
  "importRow env n r =
     (case (if truthy_str (createdAt_cell r) then dateToISO env (createdAt_cell r)
            else Some (importTime env)) of
        None \<Rightarrow> Inl InvalidTimeValue
      | Some created \<Rightarrow>
          Inr (\<lparr> entryId = (if truthy_str (id_cell r) then id_cell r
                             else randomUUID env (snd (parseParameters (randomUUID env) n (parameters_cell r)))),
                 beforeImage = None,
                 afterImage = None,
                 prompt = prompt_cell r,
                 model = (if truthy_str (model_cell r) then Some (model_cell r) else None),
                 parameters = fst (parseParameters (randomUUID env) n (parameters_cell r)),
                 tags = parseTags (tags_cell r),
                 createdAt = created,
                 isFavorite = Some (favorite_cell r = ''Yes'') \<rparr>,
               (if truthy_str (id_cell r) then snd (parseParameters (randomUUID env) n (parameters_cell r))
                else Suc (snd (parseParameters (randomUUID env) n (parameters_cell r))))))"
  by (simp add: importRow_def Let_def split: prod.splits option.splits)

lemma importRow_read_back:
  assumes "read_back (exportRow toLocale i p) r"
    and "createdAt_cell r \<noteq> [] \<longrightarrow> dateToISO env (createdAt_cell r) \<noteq> None"
  shows "\<exists>q n'. importRow env n r = Inr (q, n') \<and> reproduces p q"
proof -
  have "\<exists>created. (if truthy_str (createdAt_cell r) then dateToISO env (createdAt_cell r)
            else Some (importTime env)) = Some created"
    using assms(2) by (cases "createdAt_cell r = []") (auto simp: truthy_str_def)
  then obtain created where c: "(if truthy_str (createdAt_cell r) then dateToISO env (createdAt_cell r)
            else Some (importTime env)) = Some created"
    by blast
  have cells: "prompt_cell r = prompt p" "tags_cell r = js_join '', '' (tags p)"
    "parameters_cell r = js_join ''; '' (map param_text (parameters p))"
    "model_cell r = (if truthy_opt (model p) then the (model p) else [])"
    "favorite_cell r = (if truthy_bool (isFavorite p) then ''Yes'' else ''No'')"
    using assms(1) by (simp_all add: read_back_def exportRow_def param_text_def [abs_def])
  have mdl: "(if truthy_str (model_cell r) then Some (model_cell r) else None)
               = (if truthy_opt (model p) then model p else None)"
    unfolding cells by (cases "model p") (simp_all add: truthy_str_def)
  have fav: "(favorite_cell r = ''Yes'') = truthy_bool (isFavorite p)"
    unfolding cells by simp
  have tg: "tags_safe p \<Longrightarrow> parseTags (tags_cell r) = tags p"
    unfolding cells tags_safe_def by (rule parseTags_join)
  have pr: "params_safe p \<Longrightarrow>
      map key_value (fst (parseParameters (randomUUID env) n (parameters_cell r)))
        = map key_value (parameters p)"
    unfolding cells params_safe_def by (rule parseParameters_join)
  show ?thesis
    unfolding importRow_unfold c
    using mdl fav tg pr by (simp add: reproduces_def cells(1))
qed

lemma importRows_read_back:
  assumes "list_all2 read_back (map (\<lambda>(i, p). exportRow toLocale i p) (enumerate i ps)) rws"
    and "\<forall>r\<in>set rws. createdAt_cell r \<noteq> [] \<longrightarrow> dateToISO env (createdAt_cell r) \<noteq> None"
  shows "\<exists>qs. importRows env n rws = Inr qs \<and> list_all2 reproduces ps qs"
  using assms
proof (induction ps arbitrary: n i rws)
  case Nil
  then show ?case by simp
next
  case (Cons p ps)
  from Cons.prems(1) obtain r rws' where rws: "rws = r # rws'"
    and r: "read_back (exportRow toLocale i p) r"
    and rest: "list_all2 read_back (map (\<lambda>(i, p). exportRow toLocale i p) (enumerate (Suc i) ps)) rws'"
    by (auto simp: list_all2_Cons1)
  from Cons.prems(2) rws have d: "createdAt_cell r \<noteq> [] \<longrightarrow> dateToISO env (createdAt_cell r) \<noteq> None"
    and ds: "\<forall>r\<in>set rws'. createdAt_cell r \<noteq> [] \<longrightarrow> dateToISO env (createdAt_cell r) \<noteq> None"
    by simp_all
  from importRow_read_back [OF r d, of n] obtain q n'
    where q: "importRow env n r = Inr (q, n')" "reproduces p q"
    by blast
  from Cons.IH [OF rest ds, of n'] obtain qs
    where qs: "importRows env n' rws' = Inr qs" "list_all2 reproduces ps qs"
    by blast
  show ?case
    unfolding rws using q qs by simp
qed

text \<open>
  C1, as stated, fails on text that holds a separator and on a parameter without value: an
  entry with the single tag \<open>cats,dogs\<close> and the parameter \<open>seed\<close> with an empty value,
  exported and read back with every cell as written, comes back with the two tags \<open>cats\<close>
  and \<open>dogs\<close> and with no parameter.
\<close>

theorem export_import_lossy_counterexample:
  "importFromExcel env0 (Some (exportRows toLocale0 [entry2]))
     = Inr [\<lparr> entryId = ''k3x9'', beforeImage = None, afterImage = None,
              prompt = ''a cat'', model = Some ''sdxl'', parameters = [],
              tags = [''cats'', ''dogs''],
              createdAt = ''2024-01-01T00:00:00.000Z'', isFavorite = Some True \<rparr>]
   \<and> tags entry2 = [''cats,dogs'']
   \<and> map key_value (parameters entry2) = [(''seed'', [])]"
  by code_simp

text \<open>
  C1, amended. Let the rows read from the workbook file be the exported rows read back,
  one for one and in order, with the texts of the prompt, model, tags, parameters and
  favorite cells as they were written (the spreadsheet library decides whether a text
  comes back as written), and let the creation-date cell of every row read be empty or
  parse. Then the import succeeds and returns one entry per exported entry, in order,
  each reproducing its original: the prompt exactly; the model exactly when it is not
  empty, and no model for an absent or empty one; the tags exactly when every tag is
  non-empty, without comma and without white space at its ends; the parameters as
  key/value pairs in order when every key and value is non-empty, without colon or
  semicolon and without white space at its ends; the favorite flag as a boolean (an
  absent flag comes back as false); and both images unset.
\<close>

theorem export_import_roundtrip_amended:
  assumes "list_all2 read_back (exportRows toLocale ps) rws"
    and "\<forall>r\<in>set rws. createdAt_cell r \<noteq> [] \<longrightarrow> dateToISO env (createdAt_cell r) \<noteq> None"
  shows "\<exists>qs. importFromExcel env (Some rws) = Inr qs \<and> list_all2 reproduces ps qs"
  using importRows_read_back [OF assms(1) [unfolded exportRows_def] assms(2), of 0]
  by (simp add: importFromExcel_def)

theorem export_import_roundtrip_amended_witness:
  "list_all2 read_back (exportRows toLocale0 [entry1])
      [\<lparr> no_cell = 1, beforeImage_cell = [], afterImage_cell = [],
         prompt_cell = ''a cat, sitting: studio light'', model_cell = ''sdxl'',
         tags_cell = ''portrait, black cat'', parameters_cell = ''steps: 20; cfg scale: 7.5'',
         createdAt_cell = ''1/1/2024, 12:00:00 AM'', favorite_cell = ''No'',
         id_cell = ''k3x9'' \<rparr>]
   \<and> dateToISO env0 ''1/1/2024, 12:00:00 AM'' \<noteq> None
   \<and> tags_safe entry1 \<and> params_safe entry1
   \<and> (\<exists>q. importFromExcel env0 (Some
          [\<lparr> no_cell = 1, beforeImage_cell = [], afterImage_cell = [],
             prompt_cell = ''a cat, sitting: studio light'', model_cell = ''sdxl'',
             tags_cell = ''portrait, black cat'', parameters_cell = ''steps: 20; cfg scale: 7.5'',
             createdAt_cell = ''1/1/2024, 12:00:00 AM'', favorite_cell = ''No'',
             id_cell = ''k3x9'' \<rparr>]) = Inr [q]
          \<and> prompt q = ''a cat, sitting: studio light''
          \<and> model q = Some ''sdxl''
          \<and> tags q = [''portrait'', ''black cat'']
          \<and> map key_value (parameters q) = [(''steps'', ''20''), (''cfg scale'', ''7.5'')]
          \<and> isFavorite q = Some False
          \<and> beforeImage q = None \<and> afterImage q = None)"
proof -
  let ?rws = "[\<lparr> no_cell = 1, beforeImage_cell = [], afterImage_cell = [],
         prompt_cell = ''a cat, sitting: studio light'', model_cell = ''sdxl'',
         tags_cell = ''portrait, black cat'', parameters_cell = ''steps: 20; cfg scale: 7.5'',
         createdAt_cell = ''1/1/2024, 12:00:00 AM'', favorite_cell = ''No'',
         id_cell = ''k3x9'' \<rparr>]"
  have rb: "list_all2 read_back (exportRows toLocale0 [entry1]) ?rws"
    by code_simp
  have d: "dateToISO env0 ''1/1/2024, 12:00:00 AM'' \<noteq> None"
    by (simp add: env0_def)
  have s1: "tags_safe entry1" by code_simp
  have s2: "params_safe entry1" by code_simp
  have h: "\<forall>r\<in>set ?rws. createdAt_cell r \<noteq> [] \<longrightarrow> dateToISO env0 (createdAt_cell r) \<noteq> None"
    using d by simp
  from export_import_roundtrip_amended [OF rb h] obtain qs
    where qs: "importFromExcel env0 (Some ?rws) = Inr qs"
      "list_all2 reproduces [entry1] qs"
    by blast
  from qs(2) obtain q where q: "qs = [q]" "reproduces entry1 q"
    by (auto simp: list_all2_Cons1)
  have r: "prompt q = prompt entry1"
    "model q = (if truthy_opt (model entry1) then model entry1 else None)"
    "tags q = tags entry1"
    "map key_value (parameters q) = map key_value (parameters entry1)"
    "isFavorite q = Some (truthy_bool (isFavorite entry1))"
    "beforeImage q = None" "afterImage q = None"
    using q(2) s1 s2 unfolding reproduces_def by blast+
  have v: "prompt entry1 = ''a cat, sitting: studio light''"
    "(if truthy_opt (model entry1) then model entry1 else None) = Some ''sdxl''"
    "tags entry1 = [''portrait'', ''black cat'']"
    "map key_value (parameters entry1) = [(''steps'', ''20''), (''cfg scale'', ''7.5'')]"
    "Some (truthy_bool (isFavorite entry1)) = Some False"
    by (simp_all add: entry1_def key_value_def truthy_str_def)
  have i: "importFromExcel env0 (Some ?rws) = Inr [q]"
    using qs(1) q(1) by (rule back_subst)
  have p1: "prompt q = ''a cat, sitting: studio light''" using r(1) v(1) by (rule trans)
  have p2: "model q = Some ''sdxl''" using r(2) v(2) by (rule trans)
  have p3: "tags q = [''portrait'', ''black cat'']" using r(3) v(3) by (rule trans)
  have p4: "map key_value (parameters q) = [(''steps'', ''20''), (''cfg scale'', ''7.5'')]"
    using r(4) v(4) by (rule trans)
  have p5: "isFavorite q = Some False" using r(5) v(5) by (rule trans)
  show ?thesis
    by (intro conjI exI [of _ q]) (fact rb d s1 s2 i p1 p2 p3 p4 p5 r(6) r(7))+
qed

end
